theory Spec2Isabelle
  imports Complex_Main
begin

section \<open>Python floats\<close>

text \<open>
  The optimizer of \<open>TwoHand.ipynb\<close> computes with Python floats, which are IEEE 754
  doubles. A float is modelled as a finite real or one of the three special values. Every
  arithmetic operation on finite values returns the exact result rounded to the nearest
  double, ties to even, with gradual underflow and overflow to infinity; on the special
  values it follows IEEE 754. The sign of zero is not modelled. Python's own division
  raises \<open>ZeroDivisionError\<close> on a zero divisor, whatever the dividend is, and the true
  division of two ints raises \<open>OverflowError\<close> when the quotient is too large for a float.
\<close>

datatype pyfloat = Fin real | PInf | NInf | NaN

datatype error = ZeroDivisionError | OverflowError

text \<open>The infinity with the sign of \<open>s\<close>; \<open>NaN\<close> for \<open>s = 0\<close> (as in \<open>inf * 0\<close>).\<close>

definition signed_inf :: "real \<Rightarrow> pyfloat" where
  "signed_inf s = (if s = 0 then NaN else if 0 < s then PInf else NInf)"

text \<open>
  Rounding a real to the nearest double. \<open>norm_exp n a\<close> is the binary exponent of
  \<open>a > 0\<close>, the \<open>e\<close> with \<open>2 ^ e \<le> a < 2 ^ (e + 1)\<close>, found in at most \<open>n\<close> halvings or
  doublings (beyond that it stops at \<open>n\<close> or \<open>- n\<close>). A double of exponent \<open>e\<close> is a
  multiple of \<open>2 ^ (e - 52)\<close>; the least exponent is \<open>- 1022\<close> (below it the doubles are the
  multiples of \<open>2 ^ (- 1074)\<close>) and the greatest is \<open>1023\<close>. A result of \<open>2 ^ 1024\<close> or more
  is an infinity.
\<close>

fun norm_exp :: "nat \<Rightarrow> real \<Rightarrow> int" where
  "norm_exp 0 a = 0"
| "norm_exp (Suc n) a =
     (if 2 \<le> a then norm_exp n (a / 2) + 1
      else if a < 1 then norm_exp n (2 * a) - 1
      else 0)"

definition two_pow :: "int \<Rightarrow> real" where
  "two_pow k = (if 0 \<le> k then 2 ^ nat k else 1 / 2 ^ nat (- k))"

definition round_half_even :: "real \<Rightarrow> int" where
  "round_half_even t =
     (let f = \<lfloor>t\<rfloor>; d = t - of_int f
      in if d < 1 / 2 then f else if 1 / 2 < d then f + 1 else if even f then f else f + 1)"

definition round_double :: "real \<Rightarrow> pyfloat" where
  "round_double x =
     (if x = 0 then Fin 0
      else let a = \<bar>x\<bar>; e0 = norm_exp 1100 a
           in if 1024 \<le> e0 then signed_inf x
              else let e = max e0 (- 1022);
                       q = two_pow (e - 52);
                       m = round_half_even (a / q)
                   in if e = 1023 \<and> 2 ^ 53 \<le> m then signed_inf x
                      else Fin (sgn x * (of_int m * q)))"

text \<open>The reals that are doubles.\<close>

definition representable :: "real \<Rightarrow> bool" where
  "representable x = (round_double x = Fin x)"

fun fneg :: "pyfloat \<Rightarrow> pyfloat" where
  "fneg (Fin a) = Fin (- a)"
| "fneg PInf = NInf"
| "fneg NInf = PInf"
| "fneg NaN = NaN"

fun fadd :: "pyfloat \<Rightarrow> pyfloat \<Rightarrow> pyfloat" where
  "fadd NaN y = NaN"
| "fadd x NaN = NaN"
| "fadd (Fin a) (Fin b) = round_double (a + b)"
| "fadd (Fin a) y = y"
| "fadd x (Fin b) = x"
| "fadd PInf PInf = PInf"
| "fadd NInf NInf = NInf"
| "fadd PInf NInf = NaN"
| "fadd NInf PInf = NaN"

definition fsub :: "pyfloat \<Rightarrow> pyfloat \<Rightarrow> pyfloat" where
  "fsub x y = fadd x (fneg y)"

fun fmul :: "pyfloat \<Rightarrow> pyfloat \<Rightarrow> pyfloat" where
  "fmul NaN y = NaN"
| "fmul x NaN = NaN"
| "fmul (Fin a) (Fin b) = round_double (a * b)"
| "fmul (Fin a) PInf = signed_inf a"
| "fmul (Fin a) NInf = signed_inf (- a)"
| "fmul PInf (Fin b) = signed_inf b"
| "fmul NInf (Fin b) = signed_inf (- b)"
| "fmul PInf PInf = PInf"
| "fmul NInf NInf = PInf"
| "fmul PInf NInf = NInf"
| "fmul NInf PInf = NInf"

text \<open>The quotient by a divisor other than zero.\<close>

fun fquot :: "pyfloat \<Rightarrow> pyfloat \<Rightarrow> pyfloat" where
  "fquot NaN y = NaN"
| "fquot x NaN = NaN"
| "fquot (Fin a) (Fin b) = round_double (a / b)"
| "fquot (Fin a) y = Fin 0"
| "fquot PInf (Fin b) = signed_inf b"
| "fquot NInf (Fin b) = signed_inf (- b)"
| "fquot x y = NaN"

definition fdiv :: "pyfloat \<Rightarrow> pyfloat \<Rightarrow> error + pyfloat" where
  "fdiv x y = (if y = Fin 0 then Inl ZeroDivisionError else Inr (fquot x y))"

text \<open>Python's \<open>x > y\<close> and \<open>x < y\<close> on floats: false whenever an operand is \<open>NaN\<close>.\<close>

fun fgt :: "pyfloat \<Rightarrow> pyfloat \<Rightarrow> bool" where
  "fgt NaN y = False"
| "fgt x NaN = False"
| "fgt (Fin a) (Fin b) = (b < a)"
| "fgt NInf y = False"
| "fgt x PInf = False"
| "fgt x y = True"

definition flt :: "pyfloat \<Rightarrow> pyfloat \<Rightarrow> bool" where
  "flt x y = fgt y x"

text \<open>Python's \<open>x >= y\<close> on floats.\<close>

definition fge :: "pyfloat \<Rightarrow> pyfloat \<Rightarrow> bool" where
  "fge x y = (fgt x y \<or> (x = y \<and> x \<noteq> NaN))"

definition is_finite :: "pyfloat \<Rightarrow> bool" where
  "is_finite x = (case x of Fin a \<Rightarrow> True | _ \<Rightarrow> False)"

text \<open>
  Python's \<open>a / b\<close> on two ints (true division): the double nearest to the exact quotient.
\<close>

definition int_truediv :: "int \<Rightarrow> int \<Rightarrow> error + pyfloat" where
  "int_truediv a b =
     (if b = 0 then Inl ZeroDivisionError
      else case round_double (real_of_int a / real_of_int b) of
             Fin q \<Rightarrow> Inr (Fin q)
           | _ \<Rightarrow> Inl OverflowError)"


section \<open>The world: list objects, the objective's call log, the random stream\<close>

text \<open>
  Python lists are mutable objects handled by reference. The store \<open>heap\<close> holds every list
  of floats allocated so far, a reference is an index into it, and a fresh list gets the
  next index. The objective function is the caller's: a pure function that returns a float for
  the coordinates of every point (it neither raises nor writes to the list it is given);
  \<open>calls\<close> logs the argument of each invocation, in order. The
  generator \<open>random.random()\<close> is a stream \<open>rng\<close> of doubles of \<open>[0, 1)\<close>, of which
  \<open>draws\<close> have been consumed.
\<close>

type_synonym addr = nat

type_synonym objective = "pyfloat list \<Rightarrow> pyfloat"

record world =
  heap :: "pyfloat list list"
  calls :: "pyfloat list list"
  draws :: nat

definition new_list :: "pyfloat list \<Rightarrow> world \<Rightarrow> addr \<times> world" where
  "new_list xs w = (length (heap w), w\<lparr>heap := heap w @ [xs]\<rparr>)"

definition call :: "objective \<Rightarrow> addr \<Rightarrow> world \<Rightarrow> pyfloat \<times> world" where
  "call f a w = (f (heap w ! a), w\<lparr>calls := calls w @ [heap w ! a]\<rparr>)"

definition random :: "(nat \<Rightarrow> real) \<Rightarrow> world \<Rightarrow> real \<times> world" where
  "random rng w = (rng (draws w), w\<lparr>draws := Suc (draws w)\<rparr>)"

text \<open>\<open>random.uniform(a, b)\<close> is \<open>a + (b - a) * random()\<close>.\<close>

definition uniform :: "(nat \<Rightarrow> real) \<Rightarrow> pyfloat \<Rightarrow> pyfloat \<Rightarrow> world \<Rightarrow> pyfloat \<times> world" where
  "uniform rng a b w =
     (let (u, w1) = random rng w in (fadd a (fmul (fsub b a) (Fin u)), w1))"

text \<open>\<open>numpy.mean\<close> of a pair of bounds.\<close>

definition mean2 :: "pyfloat \<times> pyfloat \<Rightarrow> pyfloat" where
  "mean2 x = fquot (fadd (fst x) (snd x)) (Fin 2)"


section \<open>gradientStep\<close>

text \<open>
  The first loop of \<open>gradientStep\<close>, over the indices still to visit: a clone of the
  current point is allocated, the objective is called on it, coordinate \<open>i\<close> of the clone is
  increased by \<open>dx\<close> in place, the objective is called on it again, and the difference
  quotient is appended to \<open>gradientVector\<close>. A raised error carries the world as it is
  then.
\<close>

fun gradientLoop ::
  "objective \<Rightarrow> addr \<Rightarrow> pyfloat \<Rightarrow> nat list \<Rightarrow> pyfloat list \<Rightarrow> world
     \<Rightarrow> (error \<times> world) + (pyfloat list \<times> world)" where
  "gradientLoop f cur dx [] gradientVector w = Inr (gradientVector, w)"
| "gradientLoop f cur dx (i # rest) gradientVector w =
     (let (cloneX, w1) = new_list (heap w ! cur) w;
          (Y1, w2) = call f cloneX w1;
          w3 = w2\<lparr>heap := (heap w2)[cloneX := (heap w2 ! cloneX)[i := fadd (heap w2 ! cloneX ! i) dx]]\<rparr>;
          (Y2, w4) = call f cloneX w3
      in case fdiv (fsub Y2 Y1) dx of
           Inl e \<Rightarrow> Inl (e, w4)
         | Inr g \<Rightarrow> gradientLoop f cur dx rest (gradientVector @ [g]) w4)"

text \<open>The second loop: \<open>outputX[i] += gradientVector[i] * learnRate\<close>.\<close>

fun updateLoop :: "addr \<Rightarrow> pyfloat list \<Rightarrow> pyfloat \<Rightarrow> nat list \<Rightarrow> world \<Rightarrow> world" where
  "updateLoop outputX gradientVector learnRate [] w = w"
| "updateLoop outputX gradientVector learnRate (i # rest) w =
     updateLoop outputX gradientVector learnRate rest
       (w\<lparr>heap := (heap w)[outputX :=
             (heap w ! outputX)[i := fadd (heap w ! outputX ! i) (fmul (gradientVector ! i) learnRate)]]\<rparr>)"

definition gradientStep ::
  "objective \<Rightarrow> addr \<Rightarrow> pyfloat \<Rightarrow> pyfloat \<Rightarrow> world \<Rightarrow> (error \<times> world) + (addr \<times> world)" where
  "gradientStep f cur dx learnRate w =
     (case gradientLoop f cur dx [0..<length (heap w ! cur)] [] w of
        Inl ew \<Rightarrow> Inl ew
      | Inr (gradientVector, w1) \<Rightarrow>
          (let (outputX, w2) = new_list (heap w1 ! cur) w1;
               w3 = updateLoop outputX gradientVector learnRate [0..<length (heap w2 ! outputX)] w2
           in Inr (outputX, w3)))"

text \<open>
  The default arguments \<open>dx = 10 ** (-10)\<close> and \<open>learnRate = 0.01\<close>: the doubles nearest
  to these two numbers.
\<close>

definition dx_default :: pyfloat where
  "dx_default = round_double (1 / 10 ^ 10)"

definition learnRate_default :: pyfloat where
  "learnRate_default = round_double (1 / 100)"

text \<open>The world a call leaves behind, whether it returned or raised.\<close>

definition world_after :: "(error \<times> world) + ('a \<times> world) \<Rightarrow> world" where
  "world_after r = (case r of Inl (e, w) \<Rightarrow> w | Inr (x, w) \<Rightarrow> w)"


section \<open>The optimizer instance\<close>

text \<open>
  An instance of the class \<open>TwoHanded\<close> holds the bounds of the search space, a pair
  \<open>(low, high)\<close> per dimension, and the two counters. The counters are Python ints.
  The constructor stores its arguments and checks nothing; its default counters are 1 and 1.
\<close>

record TwoHanded =
  ranges :: "(pyfloat \<times> pyfloat) list"
  leftPoints :: int
  rightPoints :: int

definition init :: "(pyfloat \<times> pyfloat) list \<Rightarrow> int \<Rightarrow> int \<Rightarrow> error + TwoHanded" where
  "init rs l r = Inr \<lparr>ranges = rs, leftPoints = l, rightPoints = r\<rparr>"

definition init_default :: "(pyfloat \<times> pyfloat) list \<Rightarrow> error + TwoHanded" where
  "init_default rs = init rs 1 1"

definition selectLeftOrRight ::
  "(nat \<Rightarrow> real) \<Rightarrow> TwoHanded \<Rightarrow> world \<Rightarrow> (error \<times> world) + (string \<times> world)" where
  "selectLeftOrRight rng th w =
     (case int_truediv (leftPoints th) (leftPoints th + rightPoints th) of
        Inl e \<Rightarrow> Inl (e, w)
      | Inr probLeft \<Rightarrow>
          (let (u, w1) = uniform rng (Fin 0) (Fin 1) w
           in if flt u probLeft then Inr (''L'', w1) else Inr (''R'', w1)))"

text \<open>Random search's hypothesis selector: one draw per dimension, appended to a new list.\<close>

fun sampleLoop ::
  "(nat \<Rightarrow> real) \<Rightarrow> (pyfloat \<times> pyfloat) list \<Rightarrow> pyfloat list \<Rightarrow> world \<Rightarrow> pyfloat list \<times> world" where
  "sampleLoop rng [] out w = (out, w)"
| "sampleLoop rng (x # rest) out w =
     (let (v, w1) = uniform rng (fst x) (snd x) w in sampleLoop rng rest (out @ [v]) w1)"

definition generateRandomHypothesis :: "(nat \<Rightarrow> real) \<Rightarrow> TwoHanded \<Rightarrow> world \<Rightarrow> addr \<times> world" where
  "generateRandomHypothesis rng th w =
     (let (out, w1) = sampleLoop rng (ranges th) [] w in new_list out w1)"


section \<open>optimize\<close>

text \<open>
  What the loop of \<open>optimize\<close> works on: the instance \<open>self\<close>, whose counters it
  updates in place, its two local variables \<open>currentX\<close> (a reference to a list, or \<open>None\<close>)
  and \<open>currentY\<close>, and the world.
\<close>

record frame =
  self :: TwoHanded
  currentX :: "addr option"
  currentY :: pyfloat
  store :: world

text \<open>One pass of the loop body.\<close>

definition iteration :: "(nat \<Rightarrow> real) \<Rightarrow> objective \<Rightarrow> frame \<Rightarrow> (error \<times> frame) + frame" where
  "iteration rng f fr =
     (case selectLeftOrRight rng (self fr) (store fr) of
        Inl (e, w) \<Rightarrow> Inl (e, fr\<lparr>store := w\<rparr>)
      | Inr (leftRightDecision, w1) \<Rightarrow>
          if leftRightDecision = ''L'' then
            (let (newX, w2) = generateRandomHypothesis rng (self fr) w1;
                 (newY, w3) = call f newX w2
             in if fgt newY (currentY fr)
                then Inr (fr\<lparr>currentY := newY, currentX := Some newX,
                             self := (self fr)\<lparr>leftPoints := leftPoints (self fr) + 1\<rparr>,
                             store := w3\<rparr>)
                else Inr (fr\<lparr>self := (self fr)\<lparr>rightPoints := rightPoints (self fr) + 1\<rparr>,
                             store := w3\<rparr>))
          else
            (let (cur, w2) = (case currentX fr of
                                None \<Rightarrow> new_list (map mean2 (ranges (self fr))) w1
                              | Some a \<Rightarrow> (a, w1))
             in case gradientStep f cur dx_default learnRate_default w2 of
                  Inl (e, w3) \<Rightarrow> Inl (e, fr\<lparr>currentX := Some cur, store := w3\<rparr>)
                | Inr (newX, w3) \<Rightarrow>
                    (let (newY, w4) = call f newX w3
                     in if fgt newY (currentY fr)
                        then Inr (fr\<lparr>currentY := newY, currentX := Some newX,
                                     self := (self fr)\<lparr>rightPoints := rightPoints (self fr) + 1\<rparr>,
                                     store := w4\<rparr>)
                        else Inr (fr\<lparr>currentX := Some cur,
                                     self := (self fr)\<lparr>leftPoints := leftPoints (self fr) + 1\<rparr>,
                                     store := w4\<rparr>))))"

text \<open>The frame after \<open>n\<close> passes of the loop; a raised error ends the run.\<close>

fun run :: "(nat \<Rightarrow> real) \<Rightarrow> objective \<Rightarrow> nat \<Rightarrow> frame \<Rightarrow> (error \<times> frame) + frame" where
  "run rng f 0 fr = Inr fr"
| "run rng f (Suc n) fr =
     (case run rng f n fr of Inl ef \<Rightarrow> Inl ef | Inr fr' \<Rightarrow> iteration rng f fr')"

text \<open>The frame at the start of a call of \<open>optimize\<close> on the instance \<open>th\<close>.\<close>

definition optimize_start :: "TwoHanded \<Rightarrow> world \<Rightarrow> frame" where
  "optimize_start th w = \<lparr>self = th, currentX = None, currentY = NInf, store = w\<rparr>"

text \<open>
  \<open>optimize\<close> returns \<open>currentX\<close>; the instance, with its counters as the loop left them,
  outlives the call, also when the call raises. \<open>range(numIterations)\<close> is empty for
  a negative \<open>numIterations\<close>. The default \<open>numIterations\<close> is 25000.
\<close>

definition optimize ::
  "(nat \<Rightarrow> real) \<Rightarrow> TwoHanded \<Rightarrow> objective \<Rightarrow> int \<Rightarrow> world
     \<Rightarrow> (error \<times> TwoHanded \<times> world) + (addr option \<times> TwoHanded \<times> world)" where
  "optimize rng th f numIterations w =
     (case run rng f (nat numIterations) (optimize_start th w) of
        Inl (e, fr) \<Rightarrow> Inl (e, self fr, store fr)
      | Inr fr \<Rightarrow> Inr (currentX fr, self fr, store fr))"

definition numIterations_default :: int where
  "numIterations_default = 25000"

text \<open>The instance after a call of \<open>optimize\<close>, whether it returned or raised.\<close>

definition instance_after ::
  "(error \<times> TwoHanded \<times> world) + (addr option \<times> TwoHanded \<times> world) \<Rightarrow> TwoHanded" where
  "instance_after r = (case r of Inl (e, th, w) \<Rightarrow> th | Inr (x, th, w) \<Rightarrow> th)"


section \<open>The candidate of an iteration\<close>

text \<open>
  What an iteration proposes, read off the loop body: the strategy chosen, the reference to
  the candidate that strategy produces and the candidate's score. \<open>None\<close> when the iteration
  raises before it has a candidate. The theorems about \<open>iteration\<close> are stated against it.
\<close>

definition proposal :: "(nat \<Rightarrow> real) \<Rightarrow> objective \<Rightarrow> frame \<Rightarrow> (string \<times> addr \<times> pyfloat) option" where
  "proposal rng f fr =
     (case selectLeftOrRight rng (self fr) (store fr) of
        Inl ew \<Rightarrow> None
      | Inr (d, w1) \<Rightarrow>
          if d = ''L'' then
            (let (newX, w2) = generateRandomHypothesis rng (self fr) w1
             in Some (d, newX, f (heap w2 ! newX)))
          else
            (let (cur, w2) = (case currentX fr of
                                None \<Rightarrow> new_list (map mean2 (ranges (self fr))) w1
                              | Some a \<Rightarrow> (a, w1))
             in case gradientStep f cur dx_default learnRate_default w2 of
                  Inl ew \<Rightarrow> None
                | Inr (newX, w3) \<Rightarrow> Some (d, newX, f (heap w3 ! newX))))"

text \<open>
  The reward of a strategy, in the specification's words: the counter of the given strategy
  is incremented by 1. The other of the two strategies.
\<close>

definition credit :: "string \<Rightarrow> TwoHanded \<Rightarrow> TwoHanded" where
  "credit d th = (if d = ''L'' then th\<lparr>leftPoints := leftPoints th + 1\<rparr>
                  else th\<lparr>rightPoints := rightPoints th + 1\<rparr>)"

definition other :: "string \<Rightarrow> string" where
  "other d = (if d = ''L'' then ''R'' else ''L'')"

text \<open>
  The reference \<open>currentX\<close> holds after the \<open>None\<close> check of the exploitative branch: a
  missing best hypothesis has been replaced by a new list (the midpoints of the bounds).
\<close>

definition seeded :: "frame \<Rightarrow> addr option" where
  "seeded fr = (case currentX fr of None \<Rightarrow> Some (length (heap (store fr))) | Some a \<Rightarrow> Some a)"

text \<open>A frame whose \<open>currentX\<close>, if any, refers to a list of its store.\<close>

definition valid_frame :: "frame \<Rightarrow> bool" where
  "valid_frame fr = (case currentX fr of None \<Rightarrow> True | Some a \<Rightarrow> a < length (heap (store fr)))"

text \<open>The frame a pass of the loop body leaves behind, whether it completed or raised.\<close>

definition frame_after :: "(error \<times> frame) + frame \<Rightarrow> frame" where
  "frame_after r = (case r of Inl (e, fr) \<Rightarrow> fr | Inr fr \<Rightarrow> fr)"

text \<open>The coordinates of the best hypothesis of a frame, if it has one.\<close>

definition best_point :: "frame \<Rightarrow> pyfloat list option" where
  "best_point fr = map_option (\<lambda>a. heap (store fr) ! a) (currentX fr)"


section \<open>The forward-difference step, as a formula\<close>

text \<open>
  The point \<open>x\<close> with coordinate \<open>i\<close> increased by \<open>dx\<close>, the difference quotient of the
  objective along coordinate \<open>i\<close>, the point one ascent step away from \<open>x\<close>, and the
  arguments of the objective's invocations during one step, in order. These are not taken from
  the code: the theorems below compare \<open>gradientStep\<close> with them.
\<close>

definition perturbed :: "pyfloat list \<Rightarrow> pyfloat \<Rightarrow> nat \<Rightarrow> pyfloat list" where
  "perturbed x dx i = x[i := fadd (x ! i) dx]"

definition partial_quotient :: "objective \<Rightarrow> pyfloat list \<Rightarrow> pyfloat \<Rightarrow> nat \<Rightarrow> pyfloat" where
  "partial_quotient f x dx i = fquot (fsub (f (perturbed x dx i)) (f x)) dx"

definition stepped :: "objective \<Rightarrow> pyfloat list \<Rightarrow> pyfloat \<Rightarrow> pyfloat \<Rightarrow> pyfloat list" where
  "stepped f x dx learnRate =
     map (\<lambda>i. fadd (x ! i) (fmul learnRate (partial_quotient f x dx i))) [0..<length x]"

definition step_calls :: "pyfloat list \<Rightarrow> pyfloat \<Rightarrow> pyfloat list list" where
  "step_calls x dx = concat (map (\<lambda>i. [x, perturbed x dx i]) [0..<length x])"


section \<open>Sample inputs\<close>

text \<open>
  A world holding the single point \<open>(1, 2)\<close>, a world holding the single point
  \<open>(0.5)\<close>, and the objective \<open>a + 3 b\<close> on two-dimensional points.
\<close>

definition sample_world :: world where
  "sample_world = \<lparr>heap = [[Fin 1, Fin 2]], calls = [], draws = 0\<rparr>"

definition half_world :: world where
  "half_world = \<lparr>heap = [[Fin (1 / 2)]], calls = [], draws = 0\<rparr>"

definition sample_objective :: objective where
  "sample_objective xs = (case xs of [a, b] \<Rightarrow> fadd a (fmul (Fin 3) b) | _ \<Rightarrow> NaN)"


text \<open>
  An instance over the one-dimensional search space \<open>[0, 2]\<close> with the default counters,
  an instance with the counters 2 and 1, a world with no list in it, two constant
  generators and the generator that always returns the double nearest to \<open>2 / 3\<close>, and
  three objectives: the negated square of the first coordinate, and two constant ones.
\<close>

definition sample_instance :: TwoHanded where
  "sample_instance = \<lparr>ranges = [(Fin 0, Fin 2)], leftPoints = 1, rightPoints = 1\<rparr>"

definition instance_2_1 :: TwoHanded where
  "instance_2_1 = \<lparr>ranges = [(Fin 0, Fin 2)], leftPoints = 2, rightPoints = 1\<rparr>"

definition rng_two_thirds :: "nat \<Rightarrow> real" where
  "rng_two_thirds n = 6004799503160661 / 2 ^ 53"

definition empty_world :: world where
  "empty_world = \<lparr>heap = [], calls = [], draws = 0\<rparr>"

definition rng_low :: "nat \<Rightarrow> real" where
  "rng_low n = 1 / 4"

definition rng_high :: "nat \<Rightarrow> real" where
  "rng_high n = 3 / 4"

definition neg_square :: objective where
  "neg_square xs = (case xs of [] \<Rightarrow> Fin 0 | a # rest \<Rightarrow> fneg (fmul a a))"

definition always_PInf :: objective where
  "always_PInf xs = PInf"

definition always_NInf :: objective where
  "always_NInf xs = NInf"


text \<open>
  The frames of the run of \<open>optimize\<close> on the sample instance with \<open>rng_low\<close> and
  \<open>neg_square\<close>, after one and after two iterations.
\<close>

definition sample_frame1 :: frame where
  "sample_frame1 =
     \<lparr>self = \<lparr>ranges = [(Fin 0, Fin 2)], leftPoints = 2, rightPoints = 1\<rparr>,
      currentX = Some 0, currentY = Fin (- (1 / 4)),
      store = \<lparr>heap = [[Fin (1 / 2)]], calls = [[Fin (1 / 2)]], draws = 2\<rparr>\<rparr>"

definition sample_frame2 :: frame where
  "sample_frame2 =
     \<lparr>self = \<lparr>ranges = [(Fin 0, Fin 2)], leftPoints = 2, rightPoints = 2\<rparr>,
      currentX = Some 0, currentY = Fin (- (1 / 4)),
      store = \<lparr>heap = [[Fin (1 / 2)], [Fin (1 / 2)]],
                calls = [[Fin (1 / 2)], [Fin (1 / 2)]], draws = 4\<rparr>\<rparr>"


section \<open>What gradientStep computes\<close>

lemma fmul_commute: "fmul x y = fmul y x"
  by (cases x; cases y) (simp_all add: mult.commute)

text \<open>Unfolding the rounding on numerals.\<close>

lemma norm_exp_numeral:
  "norm_exp (numeral k) a =
     (if 2 \<le> a then norm_exp (pred_numeral k) (a / 2) + 1
      else if a < 1 then norm_exp (pred_numeral k) (2 * a) - 1
      else 0)"
  by (simp add: numeral_eq_Suc)

lemmas round_eval =
  round_double_def norm_exp_numeral two_pow_def round_half_even_def signed_inf_def Let_def

lemma dx_default_value: "dx_default = Fin (7737125245533627 / 77371252455336267181195264)"
  by (simp add: dx_default_def round_eval)

lemma dx_default_nonzero: "dx_default \<noteq> Fin 0"
  by (simp add: dx_default_value)

lemma learnRate_default_value: "learnRate_default = Fin (5764607523034235 / 576460752303423488)"
  by (simp add: learnRate_default_def round_eval)

text \<open>Unfolding the model on concrete inputs.\<close>

lemmas model_eval =
  iteration_def proposal_def selectLeftOrRight_def int_truediv_def uniform_def random_def
  flt_def fsub_def fdiv_def mean2_def generateRandomHypothesis_def new_list_def call_def
  gradientStep_def optimize_start_def optimize_def best_point_def frame_after_def
  dx_default_value learnRate_default_value round_eval

lemmas sample_eval =
  sample_instance_def empty_world_def rng_low_def rng_high_def neg_square_def
  always_PInf_def always_NInf_def sample_frame1_def sample_frame2_def

text \<open>A real below 2 in absolute value rounds to a finite double.\<close>

lemma norm_exp_small: "a < 2 \<Longrightarrow> norm_exp n a \<le> 0"
proof (induction n arbitrary: a)
  case 0
  then show ?case by simp
next
  case (Suc n)
  show ?case
  proof (cases "a < 1")
    case True
    then have "2 * a < 2" by simp
    then have "norm_exp n (2 * a) \<le> 0" by (rule Suc.IH)
    then show ?thesis using True Suc.prems by simp
  next
    case False
    then show ?thesis using Suc.prems by simp
  qed
qed

lemma round_double_small:
  assumes "\<bar>x\<bar> < 2"
  shows "\<exists>y. round_double x = Fin y"
proof (cases "x = 0")
  case True
  then show ?thesis by (simp add: round_double_def)
next
  case False
  have e0: "norm_exp 1100 \<bar>x\<bar> \<le> 0"
    using norm_exp_small [OF assms] .
  then have a: "\<not> 1024 \<le> norm_exp 1100 \<bar>x\<bar>" by simp
  have b: "max (norm_exp 1100 \<bar>x\<bar>) (- 1022) \<noteq> 1023"
    using e0 by simp
  show ?thesis
    using False a b by (simp add: round_double_def Let_def)
qed

lemma int_truediv_positive:
  assumes "0 < a" and "0 < b"
  shows "\<exists>p. int_truediv a (a + b) = Inr (Fin p)"
proof -
  have nz: "a + b \<noteq> 0" using assms by simp
  have lt: "real_of_int a / real_of_int (a + b) < 1"
    using assms by simp
  have pos: "0 < real_of_int a / real_of_int (a + b)"
    using assms by simp
  have "\<bar>real_of_int a / real_of_int (a + b)\<bar> = real_of_int a / real_of_int (a + b)"
    using pos by (rule abs_of_pos)
  then have "\<bar>real_of_int a / real_of_int (a + b)\<bar> < 2"
    using lt by linarith
  then obtain y where "round_double (real_of_int a / real_of_int (a + b)) = Fin y"
    using round_double_small by blast
  then show ?thesis
    using nz by (simp add: int_truediv_def)
qed

lemma gradientLoop_returns:
  assumes "cur < length (heap w)" and "dx \<noteq> Fin 0"
  shows "gradientLoop f cur dx is gv w =
    Inr (gv @ map (partial_quotient f (heap w ! cur) dx) is,
         w\<lparr>heap := heap w @ map (perturbed (heap w ! cur) dx) is,
           calls := calls w @ concat (map (\<lambda>i. [heap w ! cur, perturbed (heap w ! cur) dx i]) is)\<rparr>)"
  using assms
proof (induction "is" arbitrary: gv w)
  case Nil
  then show ?case by simp
next
  case (Cons i rest)
  let ?x = "heap w ! cur"
  let ?w4 = "w\<lparr>heap := heap w @ [perturbed ?x dx i], calls := calls w @ [?x, perturbed ?x dx i]\<rparr>"
  have cur4: "cur < length (heap ?w4)" using Cons.prems by simp
  have x4: "heap ?w4 ! cur = ?x" using Cons.prems by (simp add: nth_append)
  have step: "gradientLoop f cur dx (i # rest) gv w =
      gradientLoop f cur dx rest (gv @ [partial_quotient f ?x dx i]) ?w4"
    using Cons.prems
    by (simp add: new_list_def call_def fdiv_def perturbed_def partial_quotient_def Let_def)
  show ?case
    unfolding step Cons.IH [OF cur4 Cons.prems(2)] x4 by simp
qed

lemma gradientLoop_raises:
  assumes "cur < length (heap w)"
  shows "gradientLoop f cur (Fin 0) (i # rest) gv w =
    Inl (ZeroDivisionError,
         w\<lparr>heap := heap w @ [perturbed (heap w ! cur) (Fin 0) i],
           calls := calls w @ [heap w ! cur, perturbed (heap w ! cur) (Fin 0) i]\<rparr>)"
  using assms
  by (simp add: new_list_def call_def fdiv_def perturbed_def Let_def)

lemma updateLoop_fold:
  assumes "out < length (heap w)"
  shows "updateLoop out gv lr is w =
    w\<lparr>heap := (heap w)[out :=
         fold (\<lambda>i ys. ys[i := fadd (ys ! i) (fmul (gv ! i) lr)]) is (heap w ! out)]\<rparr>"
  using assms
  by (induction "is" arbitrary: w) simp_all

lemma fold_pointwise:
  "n \<le> length xs \<Longrightarrow>
   fold (\<lambda>i ys. ys[i := h i (ys ! i)]) [0..<n] xs = map (\<lambda>i. h i (xs ! i)) [0..<n] @ drop n xs"
proof (induction n)
  case 0
  then show ?case by simp
next
  case (Suc n)
  then have n: "n < length xs" by simp
  have "fold (\<lambda>i ys. ys[i := h i (ys ! i)]) [0..<Suc n] xs =
        (map (\<lambda>i. h i (xs ! i)) [0..<n] @ drop n xs)[n := h n ((map (\<lambda>i. h i (xs ! i)) [0..<n] @ drop n xs) ! n)]"
    using Suc by simp
  also have "\<dots> = map (\<lambda>i. h i (xs ! i)) [0..<n] @ (drop n xs)[0 := h n (xs ! n)]"
    using n by (simp add: list_update_append nth_append)
  also have "(drop n xs)[0 := h n (xs ! n)] = h n (xs ! n) # drop (Suc n) xs"
    using n by (simp add: Cons_nth_drop_Suc [symmetric])
  finally show ?case by simp
qed

lemma fold_update:
  "fold (\<lambda>i ys. ys[i := fadd (ys ! i) (fmul (gv ! i) lr)]) [0..<length xs] xs =
   map (\<lambda>i. fadd (xs ! i) (fmul (gv ! i) lr)) [0..<length xs]"
  using fold_pointwise [of "length xs" xs "\<lambda>i y. fadd y (fmul (gv ! i) lr)"] by simp

lemma gradientStep_returns:
  assumes "cur < length (heap w)" and "dx \<noteq> Fin 0"
  shows "gradientStep f cur dx lr w =
    Inr (length (heap w) + length (heap w ! cur),
         w\<lparr>heap := heap w @ map (perturbed (heap w ! cur) dx) [0..<length (heap w ! cur)]
                     @ [stepped f (heap w ! cur) dx lr],
           calls := calls w @ step_calls (heap w ! cur) dx\<rparr>)"
proof -
  define x where "x = heap w ! cur"
  define gv where "gv = map (partial_quotient f x dx) [0..<length x]"
  define w1 where "w1 = w\<lparr>heap := heap w @ map (perturbed x dx) [0..<length x],
                           calls := calls w @ step_calls x dx\<rparr>"
  define out where "out = length (heap w) + length x"
  define w2 where "w2 = w1\<lparr>heap := heap w1 @ [x]\<rparr>"
  have loop: "gradientLoop f cur dx [0..<length (heap w ! cur)] [] w = Inr (gv, w1)"
    using gradientLoop_returns [OF assms, of f "[0..<length x]" "[]"]
    by (simp add: x_def gv_def w1_def step_calls_def)
  have x1: "heap w1 ! cur = x"
    using assms(1) by (simp add: w1_def x_def nth_append)
  have alloc: "new_list (heap w1 ! cur) w1 = (out, w2)"
    unfolding x1 by (simp add: new_list_def w2_def out_def w1_def)
  have out2: "out < length (heap w2)"
    by (simp add: w2_def w1_def out_def)
  have at2: "heap w2 ! out = x"
    by (simp add: w2_def w1_def out_def nth_append)
  have new: "map (\<lambda>i. fadd (x ! i) (fmul (gv ! i) lr)) [0..<length x] = stepped f x dx lr"
    by (simp add: stepped_def gv_def fmul_commute)
  have upd: "updateLoop out gv lr [0..<length (heap w2 ! out)] w2 =
             w2\<lparr>heap := (heap w2)[out := stepped f x dx lr]\<rparr>"
    unfolding at2 updateLoop_fold [OF out2] fold_update new ..
  have fin: "w2\<lparr>heap := (heap w2)[out := stepped f x dx lr]\<rparr> =
             w\<lparr>heap := heap w @ map (perturbed x dx) [0..<length x] @ [stepped f x dx lr],
               calls := calls w @ step_calls x dx\<rparr>"
    by (simp add: w2_def w1_def out_def list_update_append)
  show ?thesis
    unfolding gradientStep_def loop
    by (simp add: alloc upd fin) (simp add: out_def x_def)
qed

lemma gradientStep_raises:
  assumes "cur < length (heap w)" and "heap w ! cur \<noteq> []"
  shows "gradientStep f cur (Fin 0) lr w =
    Inl (ZeroDivisionError,
         w\<lparr>heap := heap w @ [perturbed (heap w ! cur) (Fin 0) 0],
           calls := calls w @ [heap w ! cur, perturbed (heap w ! cur) (Fin 0) 0]\<rparr>)"
proof -
  have "[0..<length (heap w ! cur)] = 0 # [1..<length (heap w ! cur)]"
    using assms(2) by (simp add: upt_conv_Cons)
  then show ?thesis
    unfolding gradientStep_def using gradientLoop_raises [OF assms(1)] by simp
qed

lemma gradientStep_empty:
  assumes "heap w ! cur = []"
  shows "gradientStep f cur dx lr w = Inr (length (heap w), w\<lparr>heap := heap w @ [[]]\<rparr>)"
  using assms by (simp add: gradientStep_def new_list_def)

text \<open>Whatever the step size, the call only appends lists to the store.\<close>

lemma gradientStep_extends:
  assumes "cur < length (heap w)"
  shows "\<exists>ext. heap (world_after (gradientStep f cur dx lr w)) = heap w @ ext"
proof (cases "dx = Fin 0")
  case False
  show ?thesis
    unfolding gradientStep_returns [OF assms False] by (simp add: world_after_def)
next
  case True
  show ?thesis
  proof (cases "heap w ! cur = []")
    case True
    show ?thesis
      unfolding gradientStep_empty [OF True] by (simp add: world_after_def)
  next
    case False
    show ?thesis
      unfolding \<open>dx = Fin 0\<close> gradientStep_raises [OF assms False] by (simp add: world_after_def)
  qed
qed

lemma gradientStep_fresh:
  assumes "cur < length (heap w)" and "gradientStep f cur dx lr w = Inr (out, w')"
  shows "length (heap w) \<le> out \<and> out < length (heap w')"
proof (cases "dx = Fin 0")
  case False
  show ?thesis
    using assms(2) unfolding gradientStep_returns [OF assms(1) False] by auto
next
  case True
  show ?thesis
  proof (cases "heap w ! cur = []")
    case True
    show ?thesis
      using assms(2) unfolding gradientStep_empty [OF True] by auto
  next
    case False
    show ?thesis
      using assms(2) unfolding \<open>dx = Fin 0\<close> gradientStep_raises [OF assms(1) False] by simp
  qed
qed


section \<open>Claims about gradientStep\<close>

text \<open>
  C4. For every objective function \<open>f\<close>, every point \<open>x\<close> of dimensionality \<open>d\<close>, every
  step size \<open>dx\<close> and every learning rate, the gradient step returns a point \<open>x'\<close> of the
  same dimensionality with, for each dimension \<open>i\<close>, \<open>x'_i = x_i + learnRate * g_i\<close> where
  \<open>g_i = (f (x with coordinate i increased by dx) - f x) / dx\<close>: forward differences, and
  nothing is clamped to the bounds of the search space (the bounds do not enter the
  computation). The sum, the product, the difference and the quotient are those of Python
  floats, each rounded to the nearest double. The step returns for every step size other
  than zero; for the step size zero the quotient is undefined and Python's division raises
  (unless \<open>d = 0\<close>). The defaults are the doubles \<open>1e-10\<close> and \<open>0.01\<close>.
\<close>

theorem gradientStep_forward_differences:
  assumes "cur < length (heap w)"
  shows "(dx \<noteq> Fin 0 \<longrightarrow> (\<exists>out w'. gradientStep f cur dx learnRate w = Inr (out, w'))) \<and>
         (\<forall>out w'. gradientStep f cur dx learnRate w = Inr (out, w') \<longrightarrow>
            length (heap w' ! out) = length (heap w ! cur) \<and>
            (\<forall>i < length (heap w ! cur).
               heap w' ! out ! i =
                 fadd (heap w ! cur ! i)
                   (fmul learnRate
                     (fquot (fsub (f ((heap w ! cur)[i := fadd (heap w ! cur ! i) dx])) (f (heap w ! cur))) dx)))) \<and>
         dx_default = round_double (1 / 10 ^ 10) \<and> learnRate_default = round_double (1 / 100)"
proof -
  have returns: "\<exists>out w'. gradientStep f cur dx learnRate w = Inr (out, w')" if "dx \<noteq> Fin 0"
    unfolding gradientStep_returns [OF assms that] by simp
  have formula: "length (heap w' ! out) = length (heap w ! cur) \<and>
            (\<forall>i < length (heap w ! cur).
               heap w' ! out ! i =
                 fadd (heap w ! cur ! i)
                   (fmul learnRate
                     (fquot (fsub (f ((heap w ! cur)[i := fadd (heap w ! cur ! i) dx])) (f (heap w ! cur))) dx)))"
    if r: "gradientStep f cur dx learnRate w = Inr (out, w')" for out w'
  proof (cases "dx = Fin 0")
    case False
    show ?thesis
      using r unfolding gradientStep_returns [OF assms False]
      by (auto simp: nth_append stepped_def partial_quotient_def perturbed_def)
  next
    case True
    show ?thesis
    proof (cases "heap w ! cur = []")
      case True
      show ?thesis
        using r unfolding gradientStep_empty [OF True] by (auto simp: True)
    next
      case False
      show ?thesis
        using r unfolding \<open>dx = Fin 0\<close> gradientStep_raises [OF assms False] by simp
    qed
  qed
  have defaults: "dx_default = round_double (1 / 10 ^ 10) \<and> learnRate_default = round_double (1 / 100)"
    by (simp add: dx_default_def learnRate_default_def)
  show ?thesis
    using returns formula defaults by blast
qed

theorem gradientStep_forward_differences_witness:
  "(0::nat) < length (heap half_world) \<and> dx_default \<noteq> Fin 0 \<and>
   (\<exists>out w'. gradientStep neg_square 0 dx_default learnRate_default half_world = Inr (out, w') \<and>
      length (heap w' ! out) = 1 \<and>
      heap w' ! out ! 0 = Fin (1077521393401 / 2199023255552))"
proof -
  have a: "(0::nat) < length (heap half_world)" by (simp add: half_world_def)
  note t = gradientStep_forward_differences [OF a, of dx_default neg_square learnRate_default]
  obtain out w' where r: "gradientStep neg_square 0 dx_default learnRate_default half_world = Inr (out, w')"
    using t dx_default_nonzero by blast
  have l: "length (heap w' ! out) = length (heap half_world ! 0)"
    using t r by blast
  have c: "\<forall>i < length (heap half_world ! 0).
              heap w' ! out ! i =
                fadd (heap half_world ! 0 ! i)
                  (fmul learnRate_default
                    (fquot (fsub (neg_square ((heap half_world ! 0)[i := fadd (heap half_world ! 0 ! i) dx_default]))
                                 (neg_square (heap half_world ! 0))) dx_default))"
    using t r by blast
  have v: "fadd (Fin (1 / 2))
             (fmul learnRate_default
               (fquot (fsub (neg_square [fadd (Fin (1 / 2)) dx_default]) (neg_square [Fin (1 / 2)]))
                  dx_default)) =
           Fin (1077521393401 / 2199023255552)"
    by (simp add: dx_default_value learnRate_default_value neg_square_def fsub_def round_eval)
  have "heap w' ! out ! 0 = Fin (1077521393401 / 2199023255552)"
    using c [rule_format, of 0] v by (simp add: half_world_def)
  moreover have "length (heap w' ! out) = 1"
    using l by (simp add: half_world_def)
  ultimately show ?thesis using a dx_default_nonzero r by blast
qed

text \<open>
  C5, as the claim states it, fails: on the two-dimensional point \<open>(1, 2)\<close> one gradient step
  invokes the objective four times, not three.
\<close>

theorem gradientStep_calls_counterexample:
  "length (calls (world_after (gradientStep sample_objective 0 (Fin (1 / 2)) (Fin 2) sample_world))) = 4 \<and>
   length (calls sample_world) = 0 \<and>
   length (heap sample_world ! 0) + 1 = 3"
proof -
  have a: "(0::nat) < length (heap sample_world)" by (simp add: sample_world_def)
  have b: "Fin (1 / 2) \<noteq> Fin 0" by simp
  show ?thesis
    unfolding gradientStep_returns [OF a b]
    by (simp add: world_after_def sample_world_def step_calls_def)
qed

text \<open>
  C5, amended. For every objective function and every current point of dimensionality \<open>d\<close>,
  one gradient step invokes the objective function exactly \<open>2 d\<close> times: for each dimension
  in turn, once on the unperturbed point and once on the point with that coordinate perturbed.
  The evaluation of the unperturbed point is not shared. (The step returns whenever the step
  size is not zero.)
\<close>

theorem gradientStep_calls:
  assumes "cur < length (heap w)"
  shows "(dx \<noteq> Fin 0 \<longrightarrow> (\<exists>out w'. gradientStep f cur dx learnRate w = Inr (out, w'))) \<and>
         (\<forall>out w'. gradientStep f cur dx learnRate w = Inr (out, w') \<longrightarrow>
            calls w' = calls w @ step_calls (heap w ! cur) dx \<and>
            length (calls w') = length (calls w) + 2 * length (heap w ! cur))"
proof -
  have "length (concat (map (\<lambda>i. [x, perturbed x dx i]) is)) = 2 * length is" for x :: "pyfloat list" and "is"
    by (induction "is") simp_all
  then have len: "length (step_calls x dx) = 2 * length x" for x
    by (simp add: step_calls_def)
  have returns: "\<exists>out w'. gradientStep f cur dx learnRate w = Inr (out, w')" if "dx \<noteq> Fin 0"
    unfolding gradientStep_returns [OF assms that] by simp
  have count: "calls w' = calls w @ step_calls (heap w ! cur) dx \<and>
            length (calls w') = length (calls w) + 2 * length (heap w ! cur)"
    if r: "gradientStep f cur dx learnRate w = Inr (out, w')" for out w'
  proof (cases "dx = Fin 0")
    case False
    show ?thesis
      using r unfolding gradientStep_returns [OF assms False] by (auto simp: len)
  next
    case True
    show ?thesis
    proof (cases "heap w ! cur = []")
      case True
      show ?thesis
        using r unfolding gradientStep_empty [OF True] by (auto simp: True step_calls_def)
    next
      case False
      show ?thesis
        using r unfolding \<open>dx = Fin 0\<close> gradientStep_raises [OF assms False] by simp
    qed
  qed
  show ?thesis
    using returns count by blast
qed

theorem gradientStep_calls_witness:
  "(0::nat) < length (heap sample_world) \<and> Fin (1 / 2) \<noteq> Fin 0 \<and>
   (\<exists>out w'. gradientStep sample_objective 0 (Fin (1 / 2)) (Fin 2) sample_world = Inr (out, w') \<and>
      calls w' = [[Fin 1, Fin 2], [Fin (3 / 2), Fin 2], [Fin 1, Fin 2], [Fin 1, Fin (5 / 2)]])"
proof -
  have a: "(0::nat) < length (heap sample_world)" by (simp add: sample_world_def)
  have b: "Fin (1 / 2) \<noteq> Fin 0" by simp
  note t = gradientStep_calls [OF a, of "Fin (1 / 2)" sample_objective "Fin 2"]
  obtain out w' where r: "gradientStep sample_objective 0 (Fin (1 / 2)) (Fin 2) sample_world = Inr (out, w')"
    using t b by blast
  have c: "calls w' = calls sample_world @ step_calls (heap sample_world ! 0) (Fin (1 / 2))"
    using t r by blast
  have "calls w' = [[Fin 1, Fin 2], [Fin (3 / 2), Fin 2], [Fin 1, Fin 2], [Fin 1, Fin (5 / 2)]]"
    unfolding c by (simp add: sample_world_def step_calls_def perturbed_def upt_conv_Cons round_eval)
  then show ?thesis using a b r by blast
qed

text \<open>
  C10. For every objective function, every input point and any step size and learning rate,
  \<open>gradientStep\<close> leaves the input point unchanged: after the call, whether it returned or
  raised, the list \<open>currentX\<close> refers to holds the coordinates it held before, and so does
  every other list that existed before the call; the returned point is a fresh list.
\<close>

theorem gradientStep_leaves_input:
  assumes "cur < length (heap w)"
  shows "heap (world_after (gradientStep f cur dx learnRate w)) ! cur = heap w ! cur \<and>
         take (length (heap w)) (heap (world_after (gradientStep f cur dx learnRate w))) = heap w \<and>
         (\<forall>out w'. gradientStep f cur dx learnRate w = Inr (out, w') \<longrightarrow>
            out \<noteq> cur \<and> length (heap w) \<le> out \<and> out < length (heap w'))"
proof -
  obtain ext where e: "heap (world_after (gradientStep f cur dx learnRate w)) = heap w @ ext"
    using gradientStep_extends [OF assms] by blast
  have "heap (world_after (gradientStep f cur dx learnRate w)) ! cur = heap w ! cur"
    unfolding e using assms by (simp add: nth_append)
  moreover have "take (length (heap w)) (heap (world_after (gradientStep f cur dx learnRate w))) = heap w"
    unfolding e by simp
  moreover have "out \<noteq> cur \<and> length (heap w) \<le> out \<and> out < length (heap w')"
    if "gradientStep f cur dx learnRate w = Inr (out, w')" for out w'
    using gradientStep_fresh [OF assms that] assms by auto
  ultimately show ?thesis by blast
qed

theorem gradientStep_leaves_input_witness:
  "(0::nat) < length (heap sample_world) \<and>
   heap (world_after (gradientStep sample_objective 0 (Fin 0) (Fin 2) sample_world)) ! 0 = [Fin 1, Fin 2] \<and>
   heap (world_after (gradientStep sample_objective 0 (Fin (1 / 2)) (Fin 2) sample_world)) ! 0 = [Fin 1, Fin 2]"
proof -
  have a: "(0::nat) < length (heap sample_world)" by (simp add: sample_world_def)
  have b: "heap sample_world ! 0 = [Fin 1, Fin 2]" by (simp add: sample_world_def)
  show ?thesis
    using a gradientStep_leaves_input [OF a, of sample_objective "Fin 0" "Fin 2"]
      gradientStep_leaves_input [OF a, of sample_objective "Fin (1 / 2)" "Fin 2"]
    unfolding b by simp
qed



section \<open>The loop body and the run\<close>

lemma uniform_draws: "snd (uniform rng a b w) = w\<lparr>draws := Suc (draws w)\<rparr>"
  by (simp add: uniform_def random_def)

lemma round_double_one: "round_double 1 = Fin 1"
  by (simp add: round_eval)

lemma uniform_unit:
  assumes "representable (rng (draws w))"
  shows "uniform rng (Fin 0) (Fin 1) w = (Fin (rng (draws w)), w\<lparr>draws := Suc (draws w)\<rparr>)"
proof -
  have u: "round_double (rng (draws w)) = Fin (rng (draws w))"
    using assms by (simp add: representable_def)
  show ?thesis
    by (simp add: uniform_def random_def fsub_def round_double_one u)
qed

lemma selectLeftOrRight_returns:
  assumes "int_truediv (leftPoints th) (leftPoints th + rightPoints th) = Inr probLeft"
  shows "selectLeftOrRight rng th w =
    Inr (if flt (fst (uniform rng (Fin 0) (Fin 1) w)) probLeft then ''L'' else ''R'',
         w\<lparr>draws := Suc (draws w)\<rparr>)"
  unfolding selectLeftOrRight_def assms
  by (simp add: split_beta uniform_draws)

lemma selectLeftOrRight_raises:
  assumes "int_truediv (leftPoints th) (leftPoints th + rightPoints th) = Inl e"
  shows "selectLeftOrRight rng th w = Inl (e, w)"
  unfolding selectLeftOrRight_def assms by simp

lemma selectLeftOrRight_Inr:
  assumes "selectLeftOrRight rng th w = Inr (d, w1)"
  shows "(d = ''L'' \<or> d = ''R'') \<and> w1 = w\<lparr>draws := Suc (draws w)\<rparr>"
proof (cases "int_truediv (leftPoints th) (leftPoints th + rightPoints th)")
  case (Inl e)
  then show ?thesis using assms by (simp add: selectLeftOrRight_raises)
next
  case (Inr p)
  then show ?thesis using assms by (auto simp: selectLeftOrRight_returns split: if_splits)
qed

lemma sampleLoop_appends:
  "\<exists>vals. sampleLoop rng rs out w = (out @ vals, w\<lparr>draws := draws w + length rs\<rparr>) \<and>
          length vals = length rs"
proof (induction rs arbitrary: out w)
  case Nil
  then show ?case by simp
next
  case (Cons x rs)
  let ?v = "fadd (fst x) (fmul (fsub (snd x) (fst x)) (Fin (rng (draws w))))"
  obtain vals where v: "sampleLoop rng rs (out @ [?v]) (w\<lparr>draws := Suc (draws w)\<rparr>) =
      ((out @ [?v]) @ vals, w\<lparr>draws := Suc (draws w), draws := draws (w\<lparr>draws := Suc (draws w)\<rparr>) + length rs\<rparr>)"
    and l: "length vals = length rs"
    using Cons.IH [of "out @ [?v]" "w\<lparr>draws := Suc (draws w)\<rparr>"] by auto
  have "sampleLoop rng (x # rs) out w = (out @ (?v # vals), w\<lparr>draws := draws w + length (x # rs)\<rparr>)"
    using v by (simp add: uniform_def random_def)
  then show ?case using l by (metis length_Cons)
qed

lemma generateRandomHypothesis_fresh:
  "\<exists>vals. generateRandomHypothesis rng th w =
      (length (heap w), w\<lparr>heap := heap w @ [vals], draws := draws w + length (ranges th)\<rparr>) \<and>
      length vals = length (ranges th)"
proof -
  obtain vals where v: "sampleLoop rng (ranges th) [] w = ([] @ vals, w\<lparr>draws := draws w + length (ranges th)\<rparr>)"
    and l: "length vals = length (ranges th)"
    using sampleLoop_appends [of rng "ranges th" "[]" w] by blast
  have "generateRandomHypothesis rng th w =
      (length (heap w), w\<lparr>heap := heap w @ [vals], draws := draws w + length (ranges th)\<rparr>)"
    by (simp add: generateRandomHypothesis_def v new_list_def)
  then show ?thesis using l by blast
qed

lemma iteration_weights:
  assumes "iteration rng f fr = Inr fr'"
  shows "ranges (self fr') = ranges (self fr) \<and>
         ((leftPoints (self fr') = leftPoints (self fr) + 1 \<and> rightPoints (self fr') = rightPoints (self fr)) \<or>
          (leftPoints (self fr') = leftPoints (self fr) \<and> rightPoints (self fr') = rightPoints (self fr) + 1))"
  using assms
  by (auto simp: iteration_def Let_def split: sum.splits prod.splits if_splits option.splits)

lemma iteration_score:
  assumes "iteration rng f fr = Inr fr'"
  shows "currentY fr' = currentY fr \<or> fgt (currentY fr') (currentY fr)"
  using assms
  by (auto simp: iteration_def Let_def split: sum.splits prod.splits if_splits option.splits)

lemma gradientLoop_total:
  assumes "dx \<noteq> Fin 0"
  shows "\<exists>r. gradientLoop f cur dx is gv w = Inr r"
  using assms
  by (induction "is" arbitrary: gv w) (simp_all add: fdiv_def Let_def split: prod.splits)

lemma gradientStep_total:
  assumes "dx \<noteq> Fin 0"
  shows "\<exists>r. gradientStep f cur dx lr w = Inr r"
proof -
  obtain r where "gradientLoop f cur dx [0..<length (heap w ! cur)] [] w = Inr r"
    using gradientLoop_total [OF assms] by blast
  then show ?thesis
    by (simp add: gradientStep_def Let_def split: prod.splits)
qed

lemma iteration_total:
  assumes "0 < leftPoints (self fr)" and "0 < rightPoints (self fr)"
  shows "\<exists>fr'. iteration rng f fr = Inr fr'"
proof -
  obtain p where "int_truediv (leftPoints (self fr)) (leftPoints (self fr) + rightPoints (self fr)) = Inr (Fin p)"
    using int_truediv_positive [OF assms] by blast
  then obtain d w1 where sel: "selectLeftOrRight rng (self fr) (store fr) = Inr (d, w1)"
    using selectLeftOrRight_returns by blast
  show ?thesis
  proof (cases "d = ''L''")
    case True
    then show ?thesis
      unfolding iteration_def sel by (simp add: Let_def split: prod.splits)
  next
    case False
    obtain cur w2 where seed:
      "(case currentX fr of None \<Rightarrow> new_list (map mean2 (ranges (self fr))) w1 | Some a \<Rightarrow> (a, w1)) = (cur, w2)"
      by fastforce
    obtain newX w3 where step: "gradientStep f cur dx_default learnRate_default w2 = Inr (newX, w3)"
      using gradientStep_total [OF dx_default_nonzero] by (metis surj_pair)
    show ?thesis
      unfolding iteration_def sel using False by (simp add: seed step Let_def split: prod.splits)
  qed
qed

lemma run_total:
  assumes "0 < leftPoints (self fr)" and "0 < rightPoints (self fr)"
  shows "\<exists>fr'. run rng f n fr = Inr fr' \<and> 0 < leftPoints (self fr') \<and> 0 < rightPoints (self fr')"
proof (induction n)
  case 0
  then show ?case using assms by simp
next
  case (Suc n)
  then obtain a where a: "run rng f n fr = Inr a" "0 < leftPoints (self a)" "0 < rightPoints (self a)"
    by blast
  then obtain b where b: "iteration rng f a = Inr b"
    using iteration_total by blast
  then show ?case
    using a iteration_weights [OF b] by auto
qed

lemma run_Suc_Inr:
  assumes "run rng f (Suc k) fr = Inr b"
  shows "\<exists>a. run rng f k fr = Inr a \<and> iteration rng f a = Inr b"
  using assms by (simp split: sum.splits)

lemma run_prefix:
  assumes "run rng f n fr = Inr b" and "k \<le> n"
  shows "\<exists>a. run rng f k fr = Inr a"
  using assms
proof (induction n arbitrary: b)
  case 0
  then show ?case by simp
next
  case (Suc n)
  obtain a where a: "run rng f n fr = Inr a"
    using run_Suc_Inr [OF Suc.prems(1)] by blast
  show ?case
  proof (cases "k = Suc n")
    case True
    then show ?thesis using Suc.prems(1) by blast
  next
    case False
    then have "k \<le> n" using Suc.prems(2) by simp
    then show ?thesis using Suc.IH [OF a] by blast
  qed
qed

lemma run_weights:
  assumes "run rng f n fr = Inr fr'"
  shows "ranges (self fr') = ranges (self fr) \<and>
         leftPoints (self fr') + rightPoints (self fr') = leftPoints (self fr) + rightPoints (self fr) + int n \<and>
         leftPoints (self fr) \<le> leftPoints (self fr') \<and> rightPoints (self fr) \<le> rightPoints (self fr')"
  using assms
proof (induction n arbitrary: fr')
  case 0
  then show ?case by simp
next
  case (Suc n)
  obtain a where a: "run rng f n fr = Inr a" and b: "iteration rng f a = Inr fr'"
    using run_Suc_Inr [OF Suc.prems] by blast
  show ?case
    using Suc.IH [OF a] iteration_weights [OF b] by auto
qed

lemma run_score_not_NaN:
  assumes "run rng f n fr = Inr fr'" and "currentY fr \<noteq> NaN"
  shows "currentY fr' \<noteq> NaN"
  using assms
proof (induction n arbitrary: fr')
  case 0
  then show ?case by simp
next
  case (Suc n)
  obtain a where a: "run rng f n fr = Inr a" and b: "iteration rng f a = Inr fr'"
    using run_Suc_Inr [OF Suc.prems(1)] by blast
  have "currentY a \<noteq> NaN" using Suc.IH [OF a Suc.prems(2)] .
  then show ?case
    using iteration_score [OF b] by (cases "currentY fr'") auto
qed


lemma sample_run_low:
  "run rng_low neg_square 2 (optimize_start sample_instance empty_world) =
   Inr \<lparr>self = \<lparr>ranges = [(Fin 0, Fin 2)], leftPoints = 2, rightPoints = 2\<rparr>,
         currentX = Some 0, currentY = Fin (- (1 / 4)),
         store = \<lparr>heap = [[Fin (1 / 2)], [Fin (1 / 2)]],
                   calls = [[Fin (1 / 2)], [Fin (1 / 2)]], draws = 4\<rparr>\<rparr>"
  by (simp add: numeral_2_eq_2 model_eval sample_eval)

lemma sample_optimize_low:
  "optimize rng_low sample_instance neg_square 1 empty_world =
   Inr (Some 0, \<lparr>ranges = [(Fin 0, Fin 2)], leftPoints = 2, rightPoints = 1\<rparr>,
        \<lparr>heap = [[Fin (1 / 2)]], calls = [[Fin (1 / 2)]], draws = 2\<rparr>)"
  by (simp add: model_eval sample_eval is_finite_def)


section \<open>Claims about construction and selection\<close>

text \<open>
  C2. For all weight states with \<open>leftPoints > 0\<close> and \<open>rightPoints > 0\<close>,
  \<open>selectLeftOrRight\<close> draws one value \<open>u\<close> (\<open>uniform(0, 1)\<close>, which is the next value of
  the generator, a double of \<open>[0, 1)\<close>) and returns \<open>"L"\<close>, the exploratory strategy,
  exactly when \<open>u < leftPoints / (leftPoints + rightPoints)\<close>, and \<open>"R"\<close>, the exploitative
  strategy, otherwise. The quotient is the one the program computes, Python's true division
  of the two ints: the double nearest to the exact quotient.
\<close>

theorem selectLeftOrRight_threshold:
  assumes "0 < leftPoints th" and "0 < rightPoints th" and "representable (rng (draws w))"
  shows "\<exists>probLeft.
           int_truediv (leftPoints th) (leftPoints th + rightPoints th) = Inr (Fin probLeft) \<and>
           Fin probLeft = round_double (real_of_int (leftPoints th) / real_of_int (leftPoints th + rightPoints th)) \<and>
           uniform rng (Fin 0) (Fin 1) w = (Fin (rng (draws w)), w\<lparr>draws := Suc (draws w)\<rparr>) \<and>
           selectLeftOrRight rng th w =
             Inr (if rng (draws w) < probLeft then ''L'' else ''R'', w\<lparr>draws := Suc (draws w)\<rparr>)"
proof -
  obtain p where p: "int_truediv (leftPoints th) (leftPoints th + rightPoints th) = Inr (Fin p)"
    using int_truediv_positive [OF assms(1) assms(2)] by blast
  have q: "Fin p = round_double (real_of_int (leftPoints th) / real_of_int (leftPoints th + rightPoints th))"
    using p by (auto simp: int_truediv_def split: if_splits pyfloat.splits)
  have u: "uniform rng (Fin 0) (Fin 1) w = (Fin (rng (draws w)), w\<lparr>draws := Suc (draws w)\<rparr>)"
    using uniform_unit [of rng w, OF assms(3)] .
  have s: "selectLeftOrRight rng th w =
             Inr (if rng (draws w) < p then ''L'' else ''R'', w\<lparr>draws := Suc (draws w)\<rparr>)"
    unfolding selectLeftOrRight_returns [OF p] u by (simp add: flt_def)
  show ?thesis
    using p q u s by blast
qed

theorem selectLeftOrRight_threshold_witness:
  "0 < leftPoints sample_instance \<and> 0 < rightPoints sample_instance \<and>
   representable (rng_low (draws empty_world)) \<and> representable (rng_high (draws empty_world)) \<and>
   selectLeftOrRight rng_low sample_instance empty_world = Inr (''L'', empty_world\<lparr>draws := 1\<rparr>) \<and>
   selectLeftOrRight rng_high sample_instance empty_world = Inr (''R'', empty_world\<lparr>draws := 1\<rparr>) \<and>
   0 < leftPoints instance_2_1 \<and> 0 < rightPoints instance_2_1 \<and>
   representable (rng_two_thirds (draws empty_world)) \<and>
   selectLeftOrRight rng_two_thirds instance_2_1 empty_world = Inr (''R'', empty_world\<lparr>draws := 1\<rparr>)"
proof -
  have a: "0 < leftPoints sample_instance" and b: "0 < rightPoints sample_instance"
    by (simp_all add: sample_instance_def)
  have c: "0 < leftPoints instance_2_1" and d: "0 < rightPoints instance_2_1"
    by (simp_all add: instance_2_1_def)
  have lo: "representable (rng_low (draws empty_world))"
    by (simp add: representable_def rng_low_def round_eval)
  have hi: "representable (rng_high (draws empty_world))"
    by (simp add: representable_def rng_high_def round_eval)
  have tt: "representable (rng_two_thirds (draws empty_world))"
    by (simp add: representable_def rng_two_thirds_def round_eval)
  have half: "round_double (real_of_int (leftPoints sample_instance) /
      real_of_int (leftPoints sample_instance + rightPoints sample_instance)) = Fin (1 / 2)"
    by (simp add: sample_instance_def round_eval)
  have third: "round_double (real_of_int (leftPoints instance_2_1) /
      real_of_int (leftPoints instance_2_1 + rightPoints instance_2_1)) = Fin (6004799503160661 / 2 ^ 53)"
    by (simp add: instance_2_1_def round_eval)
  have one: "selectLeftOrRight rng_low sample_instance empty_world = Inr (''L'', empty_world\<lparr>draws := 1\<rparr>)"
    using selectLeftOrRight_threshold [where th = sample_instance and rng = rng_low and w = empty_world, OF a b lo] unfolding half
    by (auto simp: rng_low_def empty_world_def)
  have two: "selectLeftOrRight rng_high sample_instance empty_world = Inr (''R'', empty_world\<lparr>draws := 1\<rparr>)"
    using selectLeftOrRight_threshold [where th = sample_instance and rng = rng_high and w = empty_world, OF a b hi] unfolding half
    by (auto simp: rng_high_def empty_world_def)
  have three: "selectLeftOrRight rng_two_thirds instance_2_1 empty_world = Inr (''R'', empty_world\<lparr>draws := 1\<rparr>)"
    using selectLeftOrRight_threshold [where th = instance_2_1 and rng = rng_two_thirds and w = empty_world, OF c d tt] unfolding third
    by (auto simp: rng_two_thirds_def empty_world_def)
  show ?thesis
    using a b c d lo hi tt one two three by blast
qed

text \<open>
  C7, as the claim states it, fails: construction succeeds on an empty bounds sequence and on
  bounds with \<open>low > high\<close>.
\<close>

theorem init_counterexample:
  "init [] 1 1 = Inr \<lparr>ranges = [], leftPoints = 1, rightPoints = 1\<rparr> \<and>
   init [(Fin 2, Fin 1)] 1 1 = Inr \<lparr>ranges = [(Fin 2, Fin 1)], leftPoints = 1, rightPoints = 1\<rparr> \<and>
   fgt (Fin 2) (Fin 1)"
  by (simp add: init_def)

text \<open>
  C7, amended. Construction of the optimizer never fails: whatever bounds sequence is
  supplied, also an empty one or one with \<open>low_i > high_i\<close> in some dimension, the
  constructor returns an instance that holds the bounds and the two initial counters as
  given. No \<open>InvalidSearchSpace\<close> error exists.
\<close>

theorem init_always_succeeds:
  "init rs l r = Inr \<lparr>ranges = rs, leftPoints = l, rightPoints = r\<rparr> \<and>
   init_default rs = Inr \<lparr>ranges = rs, leftPoints = 1, rightPoints = 1\<rparr>"
  by (simp add: init_def init_default_def)


section \<open>Claims about the run of optimize\<close>

text \<open>
  C3. For every run of \<open>optimize\<close> on an instance with initial counters \<open>leftPoints th\<close>
  and \<open>rightPoints th\<close>, after \<open>n\<close> completed iterations the sum of the counters is the
  initial sum plus \<open>n\<close>; neither counter is below its initial value; and every completed
  iteration has increased exactly one of the two counters by exactly 1 and left the other as
  it was. With positive initial counters every iteration completes.
\<close>

theorem optimize_weight_sum:
  "(0 < leftPoints th \<and> 0 < rightPoints th \<longrightarrow>
      (\<exists>fr. run rng f n (optimize_start th w) = Inr fr)) \<and>
   (\<forall>fr. run rng f n (optimize_start th w) = Inr fr \<longrightarrow>
      leftPoints (self fr) + rightPoints (self fr) = leftPoints th + rightPoints th + int n \<and>
      leftPoints th \<le> leftPoints (self fr) \<and> rightPoints th \<le> rightPoints (self fr) \<and>
      (\<forall>k < n. \<exists>a b.
         run rng f k (optimize_start th w) = Inr a \<and>
         run rng f (Suc k) (optimize_start th w) = Inr b \<and>
         ((leftPoints (self b) = leftPoints (self a) + 1 \<and> rightPoints (self b) = rightPoints (self a)) \<or>
          (leftPoints (self b) = leftPoints (self a) \<and> rightPoints (self b) = rightPoints (self a) + 1))))"
proof -
  have completes: "\<exists>fr. run rng f n (optimize_start th w) = Inr fr"
    if "0 < leftPoints th \<and> 0 < rightPoints th"
    using run_total [of "optimize_start th w" rng f n] that by (auto simp: optimize_start_def)
  have sum: "leftPoints (self fr) + rightPoints (self fr) = leftPoints th + rightPoints th + int n \<and>
             leftPoints th \<le> leftPoints (self fr) \<and> rightPoints th \<le> rightPoints (self fr)"
    if "run rng f n (optimize_start th w) = Inr fr" for fr
    using run_weights [OF that] by (simp add: optimize_start_def)
  have step: "\<exists>a b.
            run rng f k (optimize_start th w) = Inr a \<and>
            run rng f (Suc k) (optimize_start th w) = Inr b \<and>
            ((leftPoints (self b) = leftPoints (self a) + 1 \<and> rightPoints (self b) = rightPoints (self a)) \<or>
             (leftPoints (self b) = leftPoints (self a) \<and> rightPoints (self b) = rightPoints (self a) + 1))"
    if r: "run rng f n (optimize_start th w) = Inr fr" and "k < n" for fr k
  proof -
    from that have "Suc k \<le> n" by simp
    then obtain b where b: "run rng f (Suc k) (optimize_start th w) = Inr b"
      using run_prefix [OF r] by blast
    obtain a where a: "run rng f k (optimize_start th w) = Inr a" and i: "iteration rng f a = Inr b"
      using run_Suc_Inr [OF b] by blast
    show ?thesis
      using a b iteration_weights [OF i] by blast
  qed
  show ?thesis
    using completes sum step by blast
qed

theorem optimize_weight_sum_witness:
  "0 < leftPoints sample_instance \<and> 0 < rightPoints sample_instance \<and>
   run rng_low neg_square 2 (optimize_start sample_instance empty_world) = Inr sample_frame2 \<and>
   leftPoints (self sample_frame2) + rightPoints (self sample_frame2) =
     leftPoints sample_instance + rightPoints sample_instance + int 2 \<and>
   leftPoints (self sample_frame2) + rightPoints (self sample_frame2) = 4"
proof -
  have r: "run rng_low neg_square 2 (optimize_start sample_instance empty_world) = Inr sample_frame2"
    using sample_run_low by (simp add: sample_frame2_def)
  have p: "0 < leftPoints sample_instance \<and> 0 < rightPoints sample_instance"
    by (simp add: sample_instance_def)
  have "leftPoints (self sample_frame2) + rightPoints (self sample_frame2) =
     leftPoints sample_instance + rightPoints sample_instance + int 2"
    using optimize_weight_sum [where th = sample_instance and rng = rng_low and f = neg_square
        and n = 2 and w = empty_world] r by blast
  moreover have "leftPoints (self sample_frame2) + rightPoints (self sample_frame2) = 4"
    by (simp add: sample_frame2_def)
  ultimately show ?thesis using p r by blast
qed

text \<open>
  C8. For every run of \<open>optimize\<close>, the best score is a non-decreasing function of the
  iteration index: the best score after iteration \<open>k + 1\<close> is greater than or equal to
  (Python's \<open>>=\<close>) the best score after iteration \<open>k\<close>. With positive initial counters
  every iteration completes.
\<close>

theorem optimize_best_score_nondecreasing:
  "(0 < leftPoints th \<and> 0 < rightPoints th \<longrightarrow>
      (\<exists>b. run rng f (Suc k) (optimize_start th w) = Inr b)) \<and>
   (\<forall>b. run rng f (Suc k) (optimize_start th w) = Inr b \<longrightarrow>
      (\<exists>a. run rng f k (optimize_start th w) = Inr a \<and> fge (currentY b) (currentY a)))"
proof -
  have completes: "\<exists>b. run rng f (Suc k) (optimize_start th w) = Inr b"
    if "0 < leftPoints th \<and> 0 < rightPoints th"
    using run_total [of "optimize_start th w" rng f "Suc k"] that by (auto simp: optimize_start_def)
  have mono: "\<exists>a. run rng f k (optimize_start th w) = Inr a \<and> fge (currentY b) (currentY a)"
    if r: "run rng f (Suc k) (optimize_start th w) = Inr b" for b
  proof -
    obtain a where a: "run rng f k (optimize_start th w) = Inr a" and i: "iteration rng f a = Inr b"
      using run_Suc_Inr [OF r] by blast
    have "currentY (optimize_start th w) \<noteq> NaN" by (simp add: optimize_start_def)
    then have "currentY a \<noteq> NaN" using run_score_not_NaN [OF a] by blast
    then have "fge (currentY b) (currentY a)"
      using iteration_score [OF i] by (auto simp: fge_def)
    then show ?thesis using a by blast
  qed
  show ?thesis
    using completes mono by blast
qed

theorem optimize_best_score_nondecreasing_witness:
  "0 < leftPoints sample_instance \<and> 0 < rightPoints sample_instance \<and>
   run rng_low neg_square (Suc 1) (optimize_start sample_instance empty_world) = Inr sample_frame2 \<and>
   (\<exists>a. run rng_low neg_square 1 (optimize_start sample_instance empty_world) = Inr a \<and>
        fge (currentY sample_frame2) (currentY a))"
proof -
  have r: "run rng_low neg_square (Suc 1) (optimize_start sample_instance empty_world) = Inr sample_frame2"
    using sample_run_low by (simp add: numeral_2_eq_2 sample_frame2_def)
  have p: "0 < leftPoints sample_instance \<and> 0 < rightPoints sample_instance"
    by (simp add: sample_instance_def)
  have "\<exists>a. run rng_low neg_square 1 (optimize_start sample_instance empty_world) = Inr a \<and>
        fge (currentY sample_frame2) (currentY a)"
    using optimize_best_score_nondecreasing [where th = sample_instance and rng = rng_low
        and f = neg_square and k = 1 and w = empty_world] r by blast
  then show ?thesis using p r by blast
qed

text \<open>
  C9, as the claim states it, fails: after one call of \<open>optimize\<close> (one iteration) on an
  instance constructed with the default counters 1 and 1, a second call on the same instance
  begins with \<open>leftPoints = 2\<close>.
\<close>

theorem optimize_persistence_counterexample:
  "init_default [(Fin 0, Fin 2)] = Inr sample_instance \<and>
   leftPoints sample_instance = 1 \<and>
   leftPoints (self (optimize_start
     (instance_after (optimize rng_low sample_instance neg_square 1 empty_world)) empty_world)) = 2"
  unfolding sample_optimize_low
  by (simp add: init_default_def init_def sample_instance_def instance_after_def optimize_start_def)

text \<open>
  C9, amended. The best hypothesis and the best score are created at the start of each call
  of \<open>optimize\<close> (as \<open>None\<close> and minus infinity) and do not persist across calls. The two
  counters are attributes of the instance and do persist: a second call of \<open>optimize\<close> on
  the same instance begins with the counters as the first call left them, whose sum is the
  construction-supplied sum plus the number of iterations of the first call, and it goes on
  adding to them.
\<close>

theorem optimize_counters_persist:
  assumes "optimize rng th f numIterations w = Inr (x, th', w')"
    and "run rng2 f2 k (optimize_start th' w2) = Inr fr"
  shows "currentX (optimize_start th' w2) = None \<and> currentY (optimize_start th' w2) = NInf \<and>
         self (optimize_start th' w2) = th' \<and>
         ranges th' = ranges th \<and>
         leftPoints th \<le> leftPoints th' \<and> rightPoints th \<le> rightPoints th' \<and>
         leftPoints th' + rightPoints th' = leftPoints th + rightPoints th + int (nat numIterations) \<and>
         leftPoints (self fr) + rightPoints (self fr) =
           leftPoints th + rightPoints th + int (nat numIterations) + int k"
proof -
  obtain fr1 where r: "run rng f (nat numIterations) (optimize_start th w) = Inr fr1"
    and t: "th' = self fr1"
    using assms(1) by (auto simp: optimize_def split: sum.splits prod.splits)
  have one: "ranges th' = ranges th \<and>
         leftPoints th \<le> leftPoints th' \<and> rightPoints th \<le> rightPoints th' \<and>
         leftPoints th' + rightPoints th' = leftPoints th + rightPoints th + int (nat numIterations)"
    using run_weights [OF r] unfolding t by (simp add: optimize_start_def)
  have two: "leftPoints (self fr) + rightPoints (self fr) = leftPoints th' + rightPoints th' + int k"
    using run_weights [OF assms(2)] by (simp add: optimize_start_def)
  show ?thesis
    using one two by (simp add: optimize_start_def)
qed

theorem optimize_counters_persist_witness:
  "optimize rng_low sample_instance neg_square 1 empty_world =
     Inr (Some 0, \<lparr>ranges = [(Fin 0, Fin 2)], leftPoints = 2, rightPoints = 1\<rparr>,
          \<lparr>heap = [[Fin (1 / 2)]], calls = [[Fin (1 / 2)]], draws = 2\<rparr>) \<and>
   run rng_high always_NInf 0
     (optimize_start \<lparr>ranges = [(Fin 0, Fin 2)], leftPoints = 2, rightPoints = 1\<rparr> empty_world) =
     Inr (optimize_start \<lparr>ranges = [(Fin 0, Fin 2)], leftPoints = 2, rightPoints = 1\<rparr> empty_world) \<and>
   leftPoints (self (optimize_start \<lparr>ranges = [(Fin 0, Fin 2)], leftPoints = 2, rightPoints = 1\<rparr> empty_world)) +
   rightPoints (self (optimize_start \<lparr>ranges = [(Fin 0, Fin 2)], leftPoints = 2, rightPoints = 1\<rparr> empty_world)) =
     leftPoints sample_instance + rightPoints sample_instance + int (nat 1) + int 0"
proof -
  have r: "run rng_high always_NInf 0
     (optimize_start \<lparr>ranges = [(Fin 0, Fin 2)], leftPoints = 2, rightPoints = 1\<rparr> empty_world) =
     Inr (optimize_start \<lparr>ranges = [(Fin 0, Fin 2)], leftPoints = 2, rightPoints = 1\<rparr> empty_world)"
    by simp
  show ?thesis
    using optimize_counters_persist [OF sample_optimize_low r] sample_optimize_low r
    by (simp add: optimize_start_def sample_instance_def)
qed




section \<open>The outcome of one pass of the loop body\<close>

lemma iteration_left:
  assumes sel: "selectLeftOrRight rng (self fr) (store fr) = Inr (''L'', w1)"
    and v: "valid_frame fr"
  obtains vals w' where
    "proposal rng f fr = Some (''L'', length (heap (store fr)), f vals)"
    "heap w' = heap (store fr) @ [vals]"
    "iteration rng f fr = Inr (if fgt (f vals) (currentY fr)
        then fr\<lparr>currentY := f vals, currentX := Some (length (heap (store fr))),
                self := credit ''L'' (self fr), store := w'\<rparr>
        else fr\<lparr>self := credit ''R'' (self fr), store := w'\<rparr>)"
proof -
  have w1: "w1 = (store fr)\<lparr>draws := Suc (draws (store fr))\<rparr>"
    using selectLeftOrRight_Inr [OF sel] by simp
  obtain vals where g: "generateRandomHypothesis rng (self fr) w1 =
      (length (heap w1), w1\<lparr>heap := heap w1 @ [vals], draws := draws w1 + length (ranges (self fr))\<rparr>)"
    using generateRandomHypothesis_fresh by blast
  define w2 where "w2 = w1\<lparr>heap := heap w1 @ [vals], draws := draws w1 + length (ranges (self fr))\<rparr>"
  define w' where "w' = w2\<lparr>calls := calls w2 @ [vals]\<rparr>"
  have h1: "heap w1 = heap (store fr)" by (simp add: w1)
  have g': "generateRandomHypothesis rng (self fr) w1 = (length (heap (store fr)), w2)"
    using g by (simp add: w2_def h1)
  have at: "heap w2 ! length (heap (store fr)) = vals" by (simp add: w2_def h1)
  have c: "call f (length (heap (store fr))) w2 = (f vals, w')"
    by (simp add: call_def at w'_def)
  have p: "proposal rng f fr = Some (''L'', length (heap (store fr)), f vals)"
    unfolding proposal_def sel by (simp add: g' at)
  have h': "heap w' = heap (store fr) @ [vals]"
    by (simp add: w'_def w2_def h1)
  have i: "iteration rng f fr = Inr (if fgt (f vals) (currentY fr)
        then fr\<lparr>currentY := f vals, currentX := Some (length (heap (store fr))),
                self := credit ''L'' (self fr), store := w'\<rparr>
        else fr\<lparr>self := credit ''R'' (self fr), store := w'\<rparr>)"
    unfolding iteration_def sel by (simp add: g' c credit_def)
  show ?thesis by (rule that [OF p h' i])
qed

lemma iteration_right:
  assumes sel: "selectLeftOrRight rng (self fr) (store fr) = Inr (''R'', w1)"
    and v: "valid_frame fr"
  obtains newX vals ext w' where
    "proposal rng f fr = Some (''R'', newX, f vals)"
    "heap w' = heap (store fr) @ ext"
    "length (heap (store fr)) \<le> newX"
    "newX < length (heap w')"
    "seeded fr \<noteq> Some newX"
    "currentX fr = None \<longrightarrow> heap w' ! length (heap (store fr)) = map mean2 (ranges (self fr))"
    "iteration rng f fr = Inr (if fgt (f vals) (currentY fr)
        then fr\<lparr>currentY := f vals, currentX := Some newX,
                self := credit ''R'' (self fr), store := w'\<rparr>
        else fr\<lparr>currentX := seeded fr, self := credit ''L'' (self fr), store := w'\<rparr>)"
proof -
  have w1: "w1 = (store fr)\<lparr>draws := Suc (draws (store fr))\<rparr>"
    using selectLeftOrRight_Inr [OF sel] by simp
  have h1: "heap w1 = heap (store fr)" by (simp add: w1)
  obtain cur w2 where seed:
    "(case currentX fr of None \<Rightarrow> new_list (map mean2 (ranges (self fr))) w1 | Some a \<Rightarrow> (a, w1)) = (cur, w2)"
    by fastforce
  have cur: "seeded fr = Some cur"
    using seed by (auto simp: seeded_def new_list_def h1 split: option.splits)
  have valid2: "cur < length (heap w2)"
    using seed v h1 by (auto simp: valid_frame_def new_list_def split: option.splits)
  obtain ext2 where e2: "heap w2 = heap (store fr) @ ext2"
    using seed h1 by (auto simp: new_list_def split: option.splits)
  have mid: "heap w2 ! length (heap (store fr)) = map mean2 (ranges (self fr))" if "currentX fr = None"
    using seed that by (auto simp: new_list_def h1)
  have len2: "length (heap (store fr)) < length (heap w2)" if "currentX fr = None"
    using seed that by (auto simp: new_list_def h1)
  define x where "x = heap w2 ! cur"
  define newX where "newX = length (heap w2) + length x"
  define vals where "vals = stepped f x dx_default learnRate_default"
  define more where "more = map (perturbed x dx_default) [0..<length x] @ [vals]"
  define w3 where "w3 = w2\<lparr>heap := heap w2 @ more, calls := calls w2 @ step_calls x dx_default\<rparr>"
  define w' where "w' = w3\<lparr>calls := calls w3 @ [vals]\<rparr>"
  have step: "gradientStep f cur dx_default learnRate_default w2 = Inr (newX, w3)"
    using gradientStep_returns [OF valid2 dx_default_nonzero, of f learnRate_default]
    by (simp add: newX_def w3_def more_def vals_def x_def)
  have at3: "heap w3 ! newX = vals"
    by (simp add: w3_def newX_def more_def nth_append)
  have c: "call f newX w3 = (f vals, w')"
    by (simp add: call_def at3 w'_def)
  have h': "heap w' = heap (store fr) @ (ext2 @ more)"
    by (simp add: w'_def w3_def e2)
  have p: "proposal rng f fr = Some (''R'', newX, f vals)"
    unfolding proposal_def sel using seed step at3 by simp
  have i: "iteration rng f fr = Inr (if fgt (f vals) (currentY fr)
        then fr\<lparr>currentY := f vals, currentX := Some newX,
                self := credit ''R'' (self fr), store := w'\<rparr>
        else fr\<lparr>currentX := seeded fr, self := credit ''L'' (self fr), store := w'\<rparr>)"
    unfolding iteration_def sel using seed step c by (simp add: cur credit_def)
  have fresh: "seeded fr \<noteq> Some newX"
    using valid2 by (simp add: cur newX_def)
  have lo: "length (heap (store fr)) \<le> newX"
    by (simp add: newX_def e2)
  have hi: "newX < length (heap w')"
    by (simp add: w'_def w3_def newX_def more_def)
  have at': "heap w' ! newX = vals"
    using at3 by (simp add: w'_def)
  have mid': "heap w' ! length (heap (store fr)) = map mean2 (ranges (self fr))" if "currentX fr = None"
    using mid [OF that] len2 [OF that] by (simp add: w'_def w3_def nth_append)
  have mid'': "currentX fr = None \<longrightarrow> heap w' ! length (heap (store fr)) = map mean2 (ranges (self fr))"
    using mid' by blast
  show ?thesis by (rule that [OF p h' lo hi fresh mid'' i])
qed

lemma iteration_Inr_select:
  assumes "iteration rng f fr = Inr fr'"
  shows "\<exists>w1. selectLeftOrRight rng (self fr) (store fr) = Inr (''L'', w1) \<or>
              selectLeftOrRight rng (self fr) (store fr) = Inr (''R'', w1)"
proof (cases "int_truediv (leftPoints (self fr)) (leftPoints (self fr) + rightPoints (self fr))")
  case (Inl e)
  then show ?thesis
    using assms by (simp add: iteration_def selectLeftOrRight_raises)
next
  case (Inr p)
  then show ?thesis
    by (simp add: selectLeftOrRight_returns)
qed

text \<open>
  What a completed pass of the loop body does to a valid frame: the candidate either replaces
  the best and the chosen strategy is credited, or the best score stays and the other strategy
  is credited.
\<close>

lemma iteration_outcome:
  assumes i: "iteration rng f fr = Inr fr'" and v: "valid_frame fr"
  shows "\<exists>d newX newY keep w'.
     proposal rng f fr = Some (d, newX, newY) \<and>
     (d = ''L'' \<or> d = ''R'') \<and>
     keep = (if d = ''L'' then currentX fr else seeded fr) \<and>
     (\<exists>ext. heap w' = heap (store fr) @ ext) \<and>
     length (heap (store fr)) \<le> newX \<and> newX < length (heap w') \<and>
     keep \<noteq> Some newX \<and>
     (d = ''R'' \<and> currentX fr = None \<longrightarrow>
        heap w' ! length (heap (store fr)) = map mean2 (ranges (self fr))) \<and>
     fr' = (if fgt newY (currentY fr)
            then fr\<lparr>currentY := newY, currentX := Some newX, self := credit d (self fr), store := w'\<rparr>
            else fr\<lparr>currentX := keep, self := credit (other d) (self fr), store := w'\<rparr>)"
proof -
  obtain w1 where "selectLeftOrRight rng (self fr) (store fr) = Inr (''L'', w1) \<or>
                   selectLeftOrRight rng (self fr) (store fr) = Inr (''R'', w1)"
    using iteration_Inr_select [OF i] by blast
  then show ?thesis
  proof
    assume sel: "selectLeftOrRight rng (self fr) (store fr) = Inr (''L'', w1)"
    obtain vals w' where p: "proposal rng f fr = Some (''L'', length (heap (store fr)), f vals)"
      and h: "heap w' = heap (store fr) @ [vals]"
      and e: "iteration rng f fr = Inr (if fgt (f vals) (currentY fr)
        then fr\<lparr>currentY := f vals, currentX := Some (length (heap (store fr))),
                self := credit ''L'' (self fr), store := w'\<rparr>
        else fr\<lparr>self := credit ''R'' (self fr), store := w'\<rparr>)"
      by (rule iteration_left [OF sel v, of f])
    have fresh: "currentX fr \<noteq> Some (length (heap (store fr)))"
      using v by (auto simp: valid_frame_def split: option.splits)
    show ?thesis
    proof (intro exI conjI)
      show "proposal rng f fr = Some (''L'', length (heap (store fr)), f vals)" by (fact p)
      show "''L'' = ''L'' \<or> ''L'' = ''R''" by simp
      show "currentX fr = (if ''L'' = ''L'' then currentX fr else seeded fr)" by simp
      show "heap w' = heap (store fr) @ [vals]" by (fact h)
      show "length (heap (store fr)) \<le> length (heap (store fr))" by simp
      show "length (heap (store fr)) < length (heap w')" by (simp add: h)
      show "currentX fr \<noteq> Some (length (heap (store fr)))" by (fact fresh)
      show "''L'' = ''R'' \<and> currentX fr = None \<longrightarrow>
            heap w' ! length (heap (store fr)) = map mean2 (ranges (self fr))" by simp
      show "fr' = (if fgt (f vals) (currentY fr)
            then fr\<lparr>currentY := f vals, currentX := Some (length (heap (store fr))),
                    self := credit ''L'' (self fr), store := w'\<rparr>
            else fr\<lparr>currentX := currentX fr, self := credit (other ''L'') (self fr), store := w'\<rparr>)"
      proof (cases "fgt (f vals) (currentY fr)")
        case True
        then show ?thesis using i unfolding e by simp
      next
        case False
        then show ?thesis using i unfolding e by (simp add: other_def)
      qed
    qed
  next
    assume sel: "selectLeftOrRight rng (self fr) (store fr) = Inr (''R'', w1)"
    obtain newX vals ext w' where p: "proposal rng f fr = Some (''R'', newX, f vals)"
      and h: "heap w' = heap (store fr) @ ext"
      and lo: "length (heap (store fr)) \<le> newX" and hi: "newX < length (heap w')"
      and fresh: "seeded fr \<noteq> Some newX"
      and mid: "currentX fr = None \<longrightarrow> heap w' ! length (heap (store fr)) = map mean2 (ranges (self fr))"
      and e: "iteration rng f fr = Inr (if fgt (f vals) (currentY fr)
        then fr\<lparr>currentY := f vals, currentX := Some newX,
                self := credit ''R'' (self fr), store := w'\<rparr>
        else fr\<lparr>currentX := seeded fr, self := credit ''L'' (self fr), store := w'\<rparr>)"
      by (rule iteration_right [OF sel v, of f])
    show ?thesis
    proof (intro exI conjI)
      show "proposal rng f fr = Some (''R'', newX, f vals)" by (fact p)
      show "''R'' = ''L'' \<or> ''R'' = ''R''" by simp
      show "seeded fr = (if ''R'' = ''L'' then currentX fr else seeded fr)" by simp
      show "heap w' = heap (store fr) @ ext" by (fact h)
      show "length (heap (store fr)) \<le> newX" by (fact lo)
      show "newX < length (heap w')" by (fact hi)
      show "seeded fr \<noteq> Some newX" by (fact fresh)
      show "''R'' = ''R'' \<and> currentX fr = None \<longrightarrow>
            heap w' ! length (heap (store fr)) = map mean2 (ranges (self fr))"
        using mid by simp
      show "fr' = (if fgt (f vals) (currentY fr)
            then fr\<lparr>currentY := f vals, currentX := Some newX,
                    self := credit ''R'' (self fr), store := w'\<rparr>
            else fr\<lparr>currentX := seeded fr, self := credit (other ''R'') (self fr), store := w'\<rparr>)"
      proof (cases "fgt (f vals) (currentY fr)")
        case True
        then show ?thesis using i unfolding e by simp
      next
        case False
        then show ?thesis using i unfolding e by (simp add: other_def)
      qed
    qed
  qed
qed



lemma valid_start: "valid_frame (optimize_start th w)"
  by (simp add: valid_frame_def optimize_start_def)

lemma iteration_valid:
  assumes i: "iteration rng f fr = Inr fr'" and v: "valid_frame fr"
  shows "valid_frame fr'"
proof -
  obtain d newX newY keep w' ext where
    k: "keep = (if d = ''L'' then currentX fr else seeded fr)"
    and h: "heap w' = heap (store fr) @ ext"
    and lo: "length (heap (store fr)) \<le> newX" and hi: "newX < length (heap w')"
    and e: "fr' = (if fgt newY (currentY fr)
            then fr\<lparr>currentY := newY, currentX := Some newX, self := credit d (self fr), store := w'\<rparr>
            else fr\<lparr>currentX := keep, self := credit (other d) (self fr), store := w'\<rparr>)"
    using iteration_outcome [OF i v] by blast
  have old: "a < length (heap w')" if "currentX fr = Some a" for a
    using v that by (simp add: valid_frame_def h)
  have keep: "a < length (heap w')" if "keep = Some a" for a
  proof (cases "currentX fr")
    case None
    then show ?thesis
      using that k lo hi by (auto simp: seeded_def split: if_splits)
  next
    case (Some b)
    then show ?thesis
      using that k old by (auto simp: seeded_def split: if_splits)
  qed
  show ?thesis
  proof (cases "fgt newY (currentY fr)")
    case True
    then show ?thesis using e hi by (simp add: valid_frame_def)
  next
    case False
    then show ?thesis using e keep by (simp add: valid_frame_def split: option.splits)
  qed
qed

lemma run_valid:
  assumes "run rng f n fr = Inr fr'" and "valid_frame fr"
  shows "valid_frame fr'"
  using assms
proof (induction n arbitrary: fr')
  case 0
  then show ?case by simp
next
  case (Suc n)
  obtain a where a: "run rng f n fr = Inr a" and b: "iteration rng f a = Inr fr'"
    using run_Suc_Inr [OF Suc.prems(1)] by blast
  show ?case
    using iteration_valid [OF b Suc.IH [OF a Suc.prems(2)]] .
qed

lemma fgt_NaN_left: "\<not> fgt NaN y"
  by simp

lemma fgt_NInf_left: "\<not> fgt NInf y"
  by (cases y) simp_all

lemma fgt_PInf_left: "fgt PInf y = (y \<noteq> PInf \<and> y \<noteq> NaN)"
  by (cases y) simp_all

lemma sample_frame1_run:
  "run rng_low neg_square 1 (optimize_start sample_instance empty_world) = Inr sample_frame1"
  by (simp add: model_eval sample_eval is_finite_def)

lemma sample_frame2_iteration:
  "iteration rng_low neg_square sample_frame1 = Inr sample_frame2"
  by (simp add: model_eval sample_eval is_finite_def)

lemma sample_frame1_proposal:
  "proposal rng_low neg_square sample_frame1 = Some (''L'', 1, Fin (- (1 / 4)))"
  by (simp add: model_eval sample_eval is_finite_def)


section \<open>Claims about one iteration\<close>

text \<open>
  C1, as the claim states it, fails: when the first iteration of a call of \<open>optimize\<close>
  chooses the exploitative strategy and the candidate's score (here minus infinity) is not
  strictly greater than the best score, the best hypothesis does not stay \<open>None\<close>: it is
  left at the midpoint \<open>(1)\<close> of the bounds, with which the branch replaced it.
\<close>

theorem iteration_best_unchanged_counterexample:
  "best_point (optimize_start sample_instance empty_world) = None \<and>
   proposal rng_high always_NInf (optimize_start sample_instance empty_world) = Some (''R'', 2, NInf) \<and>
   \<not> fgt NInf (currentY (optimize_start sample_instance empty_world)) \<and>
   iteration rng_high always_NInf (optimize_start sample_instance empty_world) =
     Inr \<lparr>self = \<lparr>ranges = [(Fin 0, Fin 2)], leftPoints = 2, rightPoints = 1\<rparr>,
           currentX = Some 0, currentY = NInf,
           store = \<lparr>heap = [[Fin 1], [Fin (562949953477607 / 562949953421312)], [NaN]],
                     calls = [[Fin 1], [Fin (562949953477607 / 562949953421312)], [NaN]],
                     draws = 1\<rparr>\<rparr> \<and>
   best_point (frame_after (iteration rng_high always_NInf (optimize_start sample_instance empty_world))) =
     Some [Fin 1]"
  by (simp add: model_eval sample_eval is_finite_def)

text \<open>
  C1, amended. In every iteration of \<open>optimize\<close>, when the chosen strategy's candidate
  scores strictly greater than the current best score, the candidate is adopted as the new
  best and the chosen strategy's counter is incremented by 1; otherwise (including ties) the
  best score is unchanged and the counter of the other strategy is incremented by 1 (for both
  branches), and the best hypothesis is unchanged, except that an exploitative iteration that
  found no best hypothesis leaves the midpoint of the bounds in its place.
\<close>

theorem iteration_adopts_or_cross_credits:
  assumes "run rng f k (optimize_start th w) = Inr fr" and "iteration rng f fr = Inr fr'"
  shows "\<exists>d newX newY.
     proposal rng f fr = Some (d, newX, newY) \<and>
     (fgt newY (currentY fr) \<longrightarrow>
        currentX fr' = Some newX \<and> currentY fr' = newY \<and> self fr' = credit d (self fr)) \<and>
     (\<not> fgt newY (currentY fr) \<longrightarrow>
        currentY fr' = currentY fr \<and> self fr' = credit (other d) (self fr) \<and>
        (if d = ''R'' \<and> currentX fr = None
         then best_point fr' = Some (map mean2 (ranges (self fr)))
         else currentX fr' = currentX fr \<and> best_point fr' = best_point fr))"
proof -
  have v: "valid_frame fr"
    using run_valid [OF assms(1) valid_start] .
  obtain d newX newY keep w' ext where
    p: "proposal rng f fr = Some (d, newX, newY)"
    and d: "d = ''L'' \<or> d = ''R''"
    and k: "keep = (if d = ''L'' then currentX fr else seeded fr)"
    and h: "heap w' = heap (store fr) @ ext"
    and lo: "length (heap (store fr)) \<le> newX" and hi: "newX < length (heap w')"
    and mid: "d = ''R'' \<and> currentX fr = None \<longrightarrow>
        heap w' ! length (heap (store fr)) = map mean2 (ranges (self fr))"
    and e: "fr' = (if fgt newY (currentY fr)
            then fr\<lparr>currentY := newY, currentX := Some newX, self := credit d (self fr), store := w'\<rparr>
            else fr\<lparr>currentX := keep, self := credit (other d) (self fr), store := w'\<rparr>)"
    using iteration_outcome [OF assms(2) v] by blast
  have win: "currentX fr' = Some newX \<and> currentY fr' = newY \<and> self fr' = credit d (self fr)"
    if "fgt newY (currentY fr)"
    using e that by simp
  have lose: "currentY fr' = currentY fr \<and> self fr' = credit (other d) (self fr) \<and>
        (if d = ''R'' \<and> currentX fr = None
         then best_point fr' = Some (map mean2 (ranges (self fr)))
         else currentX fr' = currentX fr \<and> best_point fr' = best_point fr)"
    if n: "\<not> fgt newY (currentY fr)"
  proof -
    have e': "fr' = fr\<lparr>currentX := keep, self := credit (other d) (self fr), store := w'\<rparr>"
      using e n by simp
    show ?thesis
    proof (cases "d = ''R'' \<and> currentX fr = None")
      case True
      then have "keep = Some (length (heap (store fr)))"
        using k by (simp add: seeded_def)
      then show ?thesis
        using True mid by (simp add: e' best_point_def)
    next
      case False
      then have same: "keep = currentX fr"
        using k d by (auto simp: seeded_def split: option.splits)
      have bp: "best_point fr' = best_point fr"
      proof (cases "currentX fr")
        case None
        then show ?thesis by (simp add: e' same best_point_def)
      next
        case (Some a)
        then have "a < length (heap (store fr))"
          using v by (simp add: valid_frame_def)
        then show ?thesis
          using Some by (simp add: e' same best_point_def h nth_append)
      qed
      have cx: "currentX fr' = currentX fr" by (simp add: e' same)
      have cy: "currentY fr' = currentY fr" by (simp add: e')
      have cs: "self fr' = credit (other d) (self fr)" by (simp add: e')
      show ?thesis
        unfolding if_not_P [OF False] using cx cy cs bp by blast
    qed
  qed
  show ?thesis
    using p win lose by blast
qed

theorem iteration_adopts_or_cross_credits_witness:
  "run rng_low neg_square 1 (optimize_start sample_instance empty_world) = Inr sample_frame1 \<and>
   iteration rng_low neg_square sample_frame1 = Inr sample_frame2 \<and>
   \<not> fgt (Fin (- (1 / 4))) (currentY sample_frame1) \<and>
   currentY sample_frame2 = currentY sample_frame1 \<and>
   self sample_frame2 = credit (other ''L'') (self sample_frame1) \<and>
   currentX sample_frame2 = currentX sample_frame1"
proof -
  obtain d newX newY where
    p: "proposal rng_low neg_square sample_frame1 = Some (d, newX, newY)"
    and l: "\<not> fgt newY (currentY sample_frame1) \<longrightarrow>
        currentY sample_frame2 = currentY sample_frame1 \<and>
        self sample_frame2 = credit (other d) (self sample_frame1) \<and>
        (if d = ''R'' \<and> currentX sample_frame1 = None
         then best_point sample_frame2 = Some (map mean2 (ranges (self sample_frame1)))
         else currentX sample_frame2 = currentX sample_frame1 \<and>
              best_point sample_frame2 = best_point sample_frame1)"
    using iteration_adopts_or_cross_credits [OF sample_frame1_run sample_frame2_iteration] by blast
  have d: "d = ''L''" and y: "newY = Fin (- (1 / 4))"
    using p unfolding sample_frame1_proposal by simp_all
  have n: "\<not> fgt (Fin (- (1 / 4))) (currentY sample_frame1)"
    by (simp add: sample_frame1_def)
  show ?thesis
    using l n sample_frame1_run sample_frame2_iteration unfolding d y by simp
qed

text \<open>
  C6, as the claim states it, fails: a candidate scored plus infinity is adopted, and the
  best score becomes plus infinity.
\<close>

theorem nonfinite_score_counterexample:
  "proposal rng_low always_PInf (optimize_start sample_instance empty_world) = Some (''L'', 0, PInf) \<and>
   \<not> is_finite PInf \<and>
   iteration rng_low always_PInf (optimize_start sample_instance empty_world) =
     Inr \<lparr>self = \<lparr>ranges = [(Fin 0, Fin 2)], leftPoints = 2, rightPoints = 1\<rparr>,
           currentX = Some 0, currentY = PInf,
           store = \<lparr>heap = [[Fin (1 / 2)]], calls = [[Fin (1 / 2)]], draws = 2\<rparr>\<rparr>"
  by (simp add: model_eval sample_eval is_finite_def)

text \<open>
  C6, amended. A score of \<open>NaN\<close> or of minus infinity returned by the objective function
  is never treated as an improvement over the current best: in no iteration of \<open>optimize\<close> is
  a candidate with such a score adopted as the best hypothesis, nor is such a value assigned
  to the best score, which is never \<open>NaN\<close>. A score of plus infinity is treated
  as an improvement exactly when the best score is not yet plus infinity: then the
  candidate is adopted and the best score becomes plus infinity.
\<close>

theorem nonfinite_scores:
  assumes "run rng f k (optimize_start th w) = Inr fr" and "iteration rng f fr = Inr fr'"
  shows "\<exists>d newX newY.
     proposal rng f fr = Some (d, newX, newY) \<and>
     currentY fr \<noteq> NaN \<and> currentY fr' \<noteq> NaN \<and>
     (newY = NaN \<or> newY = NInf \<longrightarrow> currentY fr' = currentY fr \<and> currentX fr' \<noteq> Some newX) \<and>
     (newY = PInf \<longrightarrow>
        currentY fr' = PInf \<and> (currentX fr' = Some newX) = (currentY fr \<noteq> PInf))"
proof -
  have v: "valid_frame fr"
    using run_valid [OF assms(1) valid_start] .
  have y: "currentY fr \<noteq> NaN"
    using run_score_not_NaN [OF assms(1)] by (simp add: optimize_start_def)
  have y': "currentY fr' \<noteq> NaN"
    using iteration_score [OF assms(2)] y by (cases "currentY fr'") auto
  obtain d newX newY keep w' where
    p: "proposal rng f fr = Some (d, newX, newY)"
    and fresh: "keep \<noteq> Some newX"
    and e: "fr' = (if fgt newY (currentY fr)
            then fr\<lparr>currentY := newY, currentX := Some newX, self := credit d (self fr), store := w'\<rparr>
            else fr\<lparr>currentX := keep, self := credit (other d) (self fr), store := w'\<rparr>)"
    using iteration_outcome [OF assms(2) v] by blast
  have low: "currentY fr' = currentY fr \<and> currentX fr' \<noteq> Some newX"
    if "newY = NaN \<or> newY = NInf"
  proof -
    have "\<not> fgt newY (currentY fr)"
      using that fgt_NaN_left fgt_NInf_left by blast
    then show ?thesis using e fresh by simp
  qed
  have high: "currentY fr' = PInf \<and> (currentX fr' = Some newX) = (currentY fr \<noteq> PInf)"
    if "newY = PInf"
  proof (cases "currentY fr = PInf")
    case True
    then have "\<not> fgt newY (currentY fr)"
      using that by simp
    then show ?thesis using e fresh True by simp
  next
    case False
    then have "fgt newY (currentY fr)"
      using that y by (simp add: fgt_PInf_left)
    then show ?thesis using e False that by simp
  qed
  show ?thesis
    using p y y' low high by blast
qed

theorem nonfinite_scores_witness:
  "run rng_low always_PInf 0 (optimize_start sample_instance empty_world) =
     Inr (optimize_start sample_instance empty_world) \<and>
   iteration rng_low always_PInf (optimize_start sample_instance empty_world) =
     Inr \<lparr>self = \<lparr>ranges = [(Fin 0, Fin 2)], leftPoints = 2, rightPoints = 1\<rparr>,
           currentX = Some 0, currentY = PInf,
           store = \<lparr>heap = [[Fin (1 / 2)]], calls = [[Fin (1 / 2)]], draws = 2\<rparr>\<rparr> \<and>
   (\<exists>d newX. proposal rng_low always_PInf (optimize_start sample_instance empty_world) =
      Some (d, newX, PInf) \<and> newX = 0)"
proof -
  have r: "run rng_low always_PInf 0 (optimize_start sample_instance empty_world) =
     Inr (optimize_start sample_instance empty_world)"
    by simp
  have i: "iteration rng_low always_PInf (optimize_start sample_instance empty_world) =
     Inr \<lparr>self = \<lparr>ranges = [(Fin 0, Fin 2)], leftPoints = 2, rightPoints = 1\<rparr>,
           currentX = Some 0, currentY = PInf,
           store = \<lparr>heap = [[Fin (1 / 2)]], calls = [[Fin (1 / 2)]], draws = 2\<rparr>\<rparr>"
    by (simp add: model_eval sample_eval is_finite_def)
  have q: "proposal rng_low always_PInf (optimize_start sample_instance empty_world) =
      Some (''L'', 0, PInf)"
    by (simp add: model_eval sample_eval is_finite_def)
  obtain d newX newY where
    p: "proposal rng_low always_PInf (optimize_start sample_instance empty_world) = Some (d, newX, newY)"
    and hi: "newY = PInf \<longrightarrow>
        currentY \<lparr>self = \<lparr>ranges = [(Fin 0, Fin 2)], leftPoints = 2, rightPoints = 1\<rparr>,
           currentX = Some 0, currentY = PInf,
           store = \<lparr>heap = [[Fin (1 / 2)]], calls = [[Fin (1 / 2)]], draws = 2\<rparr>\<rparr> = PInf \<and>
        (currentX \<lparr>self = \<lparr>ranges = [(Fin 0, Fin 2)], leftPoints = 2, rightPoints = 1\<rparr>,
           currentX = Some 0, currentY = PInf,
           store = \<lparr>heap = [[Fin (1 / 2)]], calls = [[Fin (1 / 2)]], draws = 2\<rparr>\<rparr> = Some newX) =
        (currentY (optimize_start sample_instance empty_world) \<noteq> PInf)"
    using nonfinite_scores [OF r i] by blast
  have y: "newY = PInf" using p unfolding q by simp
  have "newX = 0"
    using hi y by (simp add: optimize_start_def)
  then show ?thesis
    using r i p y by blast
qed


end
